theory Spec2Isabelle
  imports Complex_Main "HOL-Library.Multiset" "HOL-Library.Word"
begin

section \<open>The model of the decision-tree client (ExternalIO/spdz-decision-tree-app.cpp)\<close>

subsection \<open>Floating-point numbers\<close>

text \<open>
  A value of the C++ type \<open>float\<close>: the rational number that a finite float denotes, one
  of the two infinities, or NaN. The data file is read with \<open>atof\<close> (line 305), which
  returns all of them. The two zeros of the format compare equal and are the one value
  \<open>Finite 0\<close>.
\<close>

datatype cfloat = Finite rat | PInf | MInf | NaN

text \<open>
  The order of the floats that are not NaN: minus infinity, the finite floats in the order
  of the numbers they denote, plus infinity. To make the order total, NaN is put last; the
  comparisons of the source, below, never use the place of NaN.
\<close>

fun grade :: "cfloat \<Rightarrow> nat" where
  "grade MInf = 0"
| "grade (Finite x) = 1"
| "grade PInf = 2"
| "grade NaN = 3"

fun mag :: "cfloat \<Rightarrow> rat" where
  "mag (Finite x) = x"
| "mag a = 0"

instantiation cfloat :: linorder
begin

definition less_eq_cfloat :: "cfloat \<Rightarrow> cfloat \<Rightarrow> bool" where
  "less_eq_cfloat a b \<longleftrightarrow> grade a < grade b \<or> (grade a = grade b \<and> mag a \<le> mag b)"

definition less_cfloat :: "cfloat \<Rightarrow> cfloat \<Rightarrow> bool" where
  "less_cfloat a b \<longleftrightarrow> grade a < grade b \<or> (grade a = grade b \<and> mag a < mag b)"

instance
proof
  fix a b c :: cfloat
  show "a < b \<longleftrightarrow> a \<le> b \<and> \<not> b \<le> a"
    by (auto simp: less_eq_cfloat_def less_cfloat_def)
  show "a \<le> a"
    by (simp add: less_eq_cfloat_def)
  show "a \<le> b \<Longrightarrow> b \<le> c \<Longrightarrow> a \<le> c"
    by (auto simp: less_eq_cfloat_def)
  show "a \<le> b \<Longrightarrow> b \<le> a \<Longrightarrow> a = b"
    by (cases a; cases b) (auto simp: less_eq_cfloat_def)
  show "a \<le> b \<or> b \<le> a"
    by (auto simp: less_eq_cfloat_def)
qed

end

text \<open>
  The comparisons \<open><\<close>, \<open><=\<close> and \<open>==\<close> of the source on two floats: they are those
  of the order, and false when an operand is NaN.
\<close>

definition flt :: "cfloat \<Rightarrow> cfloat \<Rightarrow> bool" where
  "flt a b \<longleftrightarrow> a \<noteq> NaN \<and> b \<noteq> NaN \<and> a < b"

definition fle :: "cfloat \<Rightarrow> cfloat \<Rightarrow> bool" where
  "fle a b \<longleftrightarrow> a \<noteq> NaN \<and> b \<noteq> NaN \<and> a \<le> b"

definition feq :: "cfloat \<Rightarrow> cfloat \<Rightarrow> bool" where
  "feq a b \<longleftrightarrow> a \<noteq> NaN \<and> b \<noteq> NaN \<and> a = b"

text \<open>
  The sum of two floats, and the quotient of a float by 2. \<open>to_float\<close> rounds the exact
  result of an operation on finite operands to a float: to a finite float, or to an
  infinity when the result is beyond the range of the format. The sum of the two
  infinities is NaN.
\<close>

fun fadd :: "(rat \<Rightarrow> cfloat) \<Rightarrow> cfloat \<Rightarrow> cfloat \<Rightarrow> cfloat" where
  "fadd to_float (Finite x) (Finite y) = to_float (x + y)"
| "fadd to_float NaN b = NaN"
| "fadd to_float a NaN = NaN"
| "fadd to_float PInf MInf = NaN"
| "fadd to_float MInf PInf = NaN"
| "fadd to_float PInf b = PInf"
| "fadd to_float a PInf = PInf"
| "fadd to_float MInf b = MInf"
| "fadd to_float a MInf = MInf"

fun fhalf :: "(rat \<Rightarrow> cfloat) \<Rightarrow> cfloat \<Rightarrow> cfloat" where
  "fhalf to_float (Finite x) = to_float (x / 2)"
| "fhalf to_float a = a"

text \<open>
  Sample counts and loop counters are natural numbers: the source holds them in \<open>int\<close>,
  and no count used here leaves its range. The floats that \<open>receive_result\<close> returns
  are quotients of 64-bit integers by \<open>2^8\<close>, hence finite, and are rational numbers there.
\<close>

subsection \<open>The indicator vector encoder\<close>

text \<open>
  The inner loop of \<open>compute_feature_split_ivs\<close> (source lines 424-432): one pass over
  the feature values that appends to the left and to the right vector of the current split.
\<close>

fun split_iv_vectors :: "cfloat \<Rightarrow> cfloat list \<Rightarrow> int list \<times> int list" where
  "split_iv_vectors cur_split_value [] = ([], [])"
| "split_iv_vectors cur_split_value (x # xs) =
     (let (l, r) = split_iv_vectors cur_split_value xs
      in if fle x cur_split_value then (1 # l, 0 # r) else (0 # l, 1 # r))"

text \<open>
  \<open>compute_feature_split_ivs\<close> (lines 415-448). The two output matrices are reference
  parameters to which the rows are appended, so they are passed in and returned. The number
  of rows is \<open>split_values.size() - 1\<close>; row \<open>s\<close> uses \<open>split_values[s+1]\<close>, which is in
  range for every \<open>s\<close> of the loop. The sums \<open>sum_left\<close> and \<open>sum_right\<close> of lines 434-438
  are computed and never used, and the logger line writes to the log file only.
\<close>

definition feature_split_step ::
  "cfloat list \<Rightarrow> cfloat list \<Rightarrow> nat \<Rightarrow> int list list \<times> int list list \<Rightarrow>
     int list list \<times> int list list" where
  "feature_split_step feature_values split_values s ivs =
     (let cur_split_value = split_values ! (s + 1);
          (l, r) = split_iv_vectors cur_split_value feature_values
      in (fst ivs @ [l], snd ivs @ [r]))"

definition compute_feature_split_ivs ::
  "cfloat list \<Rightarrow> cfloat list \<Rightarrow> int list list \<Rightarrow> int list list \<Rightarrow>
     int list list \<times> int list list" where
  "compute_feature_split_ivs feature_values split_values left_split_ivs right_split_ivs =
     (let split_num = length split_values - 1
      in fold (feature_split_step feature_values split_values)
              [0..<split_num] (left_split_ivs, right_split_ivs))"

text \<open>
  The first loop of \<open>compute_label_class_ivs\<close> (lines 452-463): a label is appended to
  \<open>classes\<close> unless the scan of \<open>classes\<close> finds a class that compares equal to it.
\<close>

fun collect_classes :: "cfloat list \<Rightarrow> cfloat list \<Rightarrow> cfloat list" where
  "collect_classes classes [] = classes"
| "collect_classes classes (label # labels) =
     collect_classes (if list_ex (\<lambda>c. feq c label) classes then classes else classes @ [label])
       labels"

text \<open>\<open>compute_label_class_ivs\<close> (lines 451-478): one row per class, one column per sample.\<close>

definition compute_label_class_ivs :: "cfloat list \<Rightarrow> int list list" where
  "compute_label_class_ivs training_labels =
     (let classes = collect_classes [] training_labels
      in map (\<lambda>c. map (\<lambda>label. if feq label c then 1 else 0) training_labels) classes)"

text \<open>
  The distinct values of a list in the order of their first occurrence, written from the
  words of the specification, to compare \<open>collect_classes\<close> with.
\<close>

fun first_occurrences :: "'a list \<Rightarrow> 'a list" where
  "first_occurrences [] = []"
| "first_occurrences (x # xs) = x # removeAll x (first_occurrences xs)"

subsection \<open>Field elements, byte streams and engine channels\<close>

text \<open>
  The ways in which the client stops or leaves defined behaviour. \<open>Incorrect_Triple i\<close>
  is the exit of \<open>send_private_inputs\<close> at lines 166-167: the message
  "Incorrect triple at i, aborting" on \<open>cerr\<close> and \<open>exit(1)\<close>. The others stand for a
  read past the end of a received buffer, a receive on a connection that delivers nothing,
  an index past the end of the \<open>sockets\<close> vector or of a data vector (undefined
  behaviour of \<open>operator[]\<close>), a vector constructed with a negative length, and a
  conversion of a \<open>double\<close> outside the range of \<open>int64_t\<close>.
\<close>

datatype fault =
    Incorrect_Triple nat
  | Insufficient_Data
  | Connection_Lost
  | Bad_Socket
  | Index_Out_Of_Range
  | Bad_Length
  | Int64_Overflow

text \<open>The exit status of the only \<open>exit\<close> call of the protocol routines (line 167).\<close>

fun exit_status :: "fault \<Rightarrow> int option" where
  "exit_status (Incorrect_Triple i) = Some 1"
| "exit_status _ = None"

text \<open>
  Modelled from the spec: the field element type \<open>gfp\<close> (Math/gfp.h is not among the
  sources). The specification describes an element of a prime field with addition,
  multiplication, equality and conversion from and to a signed integer. An element is
  held as its representative in \<open>{0..<p}\<close>; the prime \<open>p\<close>, installed once by
  \<open>gfp::init_field\<close>, is a parameter of every operation. A default-constructed
  element is 0.
\<close>

type_synonym gfp = int

text \<open>Modelled from the spec: field addition, \<open>operator+\<close> and \<open>operator+=\<close> of \<open>gfp\<close>.\<close>

definition gfp_add :: "int \<Rightarrow> gfp \<Rightarrow> gfp \<Rightarrow> gfp" where
  "gfp_add p a b = (a + b) mod p"

text \<open>Modelled from the spec: field multiplication, \<open>operator*\<close> of \<open>gfp\<close>.\<close>

definition gfp_mul :: "int \<Rightarrow> gfp \<Rightarrow> gfp \<Rightarrow> gfp" where
  "gfp_mul p a b = (a * b) mod p"

text \<open>
  Modelled from the spec: field subtraction, which the client never calls; the
  specification's trusted decoder uses it to remove a mask.
\<close>

definition gfp_sub :: "int \<Rightarrow> gfp \<Rightarrow> gfp \<Rightarrow> gfp" where
  "gfp_sub p a b = (a - b) mod p"

text \<open>
  Modelled from the spec: \<open>gfp::assign\<close> of a signed machine integer, the lift of a
  signed integer into the field.
\<close>

definition gfp_assign :: "int \<Rightarrow> int \<Rightarrow> gfp" where
  "gfp_assign p x = x mod p"

text \<open>
  Modelled from the spec: \<open>to_signed_bigint\<close>, the conversion of a field element to a
  signed integer: the upper half of the field stands for the negative numbers.
\<close>

definition to_signed_bigint :: "int \<Rightarrow> gfp \<Rightarrow> int" where
  "to_signed_bigint p x = (if (p - 1) div 2 < x then x - p else x)"

text \<open>
  Modelled from the spec: \<open>bigint::get_si\<close> (Math/bigint.h over GMP), the value of a big
  integer as a 64-bit \<open>long\<close>. A value in the range of \<open>long\<close> is returned as it is;
  of any other value GMP returns the low 63 bits with the sign.
\<close>

definition get_si :: "int \<Rightarrow> int" where
  "get_si x = (if 0 \<le> x then x mod 2 ^ 63 else - 1 - ((- x - 1) mod 2 ^ 63))"

text \<open>
  The assignment of a \<open>long\<close> to an \<open>int\<close> (line 275; \<open>best_split_index\<close> is an
  \<open>int\<close>): the low 32 bits, read as a signed number.
\<close>

definition long_to_int :: "int \<Rightarrow> int" where
  "long_to_int x = sint (word_of_int x :: 32 word)"

text \<open>
  Modelled from the spec: the buffer \<open>octetStream\<close> (Tools/octetStream.h is not among the
  sources), as the sequence of the field elements packed into it. \<open>unpack\<close> reads the next
  element; reading past the end of the buffer is the fatal error of the specification's
  wire codec.
\<close>

type_synonym octetStream = "gfp list"

text \<open>Modelled from the spec: \<open>gfp::unpack\<close>, reading the next element of a buffer.\<close>

definition unpack :: "octetStream \<Rightarrow> (gfp \<times> octetStream) option" where
  "unpack os = (case os of [] \<Rightarrow> None | x # os' \<Rightarrow> Some (x, os'))"

text \<open>Modelled from the spec: \<open>gfp::pack\<close>, appending an element to a buffer.\<close>

definition pack :: "gfp \<Rightarrow> octetStream \<Rightarrow> octetStream" where
  "pack y os = os @ [y]"

text \<open>
  Modelled from the spec: one connection to an engine (Networking/sockets.h is not among
  the sources): the buffers that the engine sends, in the order in which they arrive, and
  the buffers that the client has written to it, oldest first. The vector \<open>sockets\<close> of
  the source is the list of these connections, indexed by engine.
\<close>

record channel =
  inbox :: "octetStream list"
  outbox :: "octetStream list"

text \<open>
  Modelled from the spec: \<open>octetStream::Receive\<close> on \<open>sockets[j]\<close>, which replaces the
  content of the buffer by the next buffer that engine \<open>j\<close> sends.
\<close>

definition Receive :: "nat \<Rightarrow> channel list \<Rightarrow> (fault + octetStream) \<times> channel list" where
  "Receive j sockets =
     (if j < length sockets then
        (case inbox (sockets ! j) of
           [] \<Rightarrow> (Inl Connection_Lost, sockets)
         | m # ms \<Rightarrow> (Inr m, sockets[j := (sockets ! j)\<lparr>inbox := ms\<rparr>]))
      else (Inl Bad_Socket, sockets))"

text \<open>
  Modelled from the spec: \<open>octetStream::Send\<close> on \<open>sockets[j]\<close>, which writes the
  content of the buffer to engine \<open>j\<close>.
\<close>

definition Send :: "nat \<Rightarrow> octetStream \<Rightarrow> channel list \<Rightarrow> (fault + unit) \<times> channel list" where
  "Send j os sockets =
     (if j < length sockets then
        (Inr (), sockets[j := (sockets ! j)\<lparr>outbox := outbox (sockets ! j) @ [os]\<rparr>])
      else (Inl Bad_Socket, sockets))"

subsection \<open>The secret-sharing protocol client\<close>

text \<open>
  The two inner loops of the receiving phase of \<open>send_private_inputs\<close> (lines 151-158):
  for every input, three elements are unpacked from the received buffer and added to the
  three components of the running triple. A triple, a \<open>vector<gfp>\<close> of size 3 in the
  source, is a tuple here.
\<close>

fun add_triple_shares ::
  "int \<Rightarrow> octetStream \<Rightarrow> (gfp \<times> gfp \<times> gfp) list \<Rightarrow> (gfp \<times> gfp \<times> gfp) list option" where
  "add_triple_shares p os [] = Some []"
| "add_triple_shares p os ((a, b, c) # triples) =
     (case unpack os of
        None \<Rightarrow> None
      | Some (x0, os0) \<Rightarrow>
          (case unpack os0 of
             None \<Rightarrow> None
           | Some (x1, os1) \<Rightarrow>
               (case unpack os1 of
                  None \<Rightarrow> None
                | Some (x2, os2) \<Rightarrow>
                    (case add_triple_shares p os2 triples of
                       None \<Rightarrow> None
                     | Some triples' \<Rightarrow>
                         Some ((gfp_add p a x0, gfp_add p b x1, gfp_add p c x2) # triples')))))"

text \<open>The loop over the engines of lines 146-159, over the engine indices still to do.\<close>

fun receive_triples ::
  "int \<Rightarrow> nat list \<Rightarrow> (gfp \<times> gfp \<times> gfp) list \<Rightarrow> channel list \<Rightarrow>
     (fault + (gfp \<times> gfp \<times> gfp) list) \<times> channel list" where
  "receive_triples p [] triples sockets = (Inr triples, sockets)"
| "receive_triples p (j # js) triples sockets =
     (case Receive j sockets of
        (Inl e, sockets') \<Rightarrow> (Inl e, sockets')
      | (Inr os, sockets') \<Rightarrow>
          (case add_triple_shares p os triples of
             None \<Rightarrow> (Inl Insufficient_Data, sockets')
           | Some triples' \<Rightarrow> receive_triples p js triples' sockets'))"

text \<open>
  The check of lines 162-169, from index \<open>i\<close> on: the index of the first triple whose
  product of the first two components differs from the third, if there is one.
\<close>

fun check_triples :: "int \<Rightarrow> nat \<Rightarrow> (gfp \<times> gfp \<times> gfp) list \<Rightarrow> nat option" where
  "check_triples p i [] = None"
| "check_triples p i ((a, b, c) # triples) =
     (if gfp_mul p a b \<noteq> c then Some i else check_triples p (i + 1) triples)"

text \<open>The masking loop of lines 172-177: the buffer, emptied first, receives the
  masked values in the order of the inputs.\<close>

fun mask_inputs :: "int \<Rightarrow> gfp list \<Rightarrow> (gfp \<times> gfp \<times> gfp) list \<Rightarrow> octetStream \<Rightarrow> octetStream" where
  "mask_inputs p (v # vs) ((a, b, c) # triples) os = mask_inputs p vs triples (pack (gfp_add p v a) os)"
| "mask_inputs p _ _ os = os"

text \<open>The sending loop of lines 178-179.\<close>

fun send_all :: "nat list \<Rightarrow> octetStream \<Rightarrow> channel list \<Rightarrow> (fault + unit) \<times> channel list" where
  "send_all [] os sockets = (Inr (), sockets)"
| "send_all (j # js) os sockets =
     (case Send j os sockets of
        (Inl e, sockets') \<Rightarrow> (Inl e, sockets')
      | (Inr u, sockets') \<Rightarrow> send_all js os sockets')"

text \<open>
  \<open>send_private_inputs\<close> (lines 138-180). The result is the fault at which the client
  stops, if any, together with the state of the connections at that moment. The engine
  count \<open>n_parties\<close>, an \<open>int\<close> in the source, is a natural number: with a negative
  count the loops over the engines do not run, as with 0.
\<close>

definition send_private_inputs ::
  "int \<Rightarrow> gfp list \<Rightarrow> nat \<Rightarrow> channel list \<Rightarrow> (fault + unit) \<times> channel list" where
  "send_private_inputs p values n_parties sockets =
     (let num_inputs = length values;
          triples = replicate num_inputs (0, 0, 0)
      in case receive_triples p [0..<n_parties] triples sockets of
           (Inl e, sockets1) \<Rightarrow> (Inl e, sockets1)
         | (Inr triples1, sockets1) \<Rightarrow>
             (case check_triples p 0 triples1 of
                Some i \<Rightarrow> (Inl (Incorrect_Triple i), sockets1)
              | None \<Rightarrow> send_all [0..<n_parties] (mask_inputs p values triples1 []) sockets1))"

text \<open>Line 56: the number of fractional bits of the fixed-point encoding.\<close>

definition SPDZ_FIXED_PRECISION :: nat where
  "SPDZ_FIXED_PRECISION = 8"

text \<open>
  The function \<open>round\<close> of the C library on a \<open>double\<close>: the nearest integer, a half
  rounded away from zero.
\<close>

definition c_round :: "rat \<Rightarrow> int" where
  "c_round x = (if 0 \<le> x then \<lfloor>x + 1 / 2\<rfloor> else - \<lfloor>- x + 1 / 2\<rfloor>)"

text \<open>
  The body of the loop of step 1 of \<open>send_private_batch_shares\<close> (line 190). The
  product of a finite \<open>float\<close> and \<open>pow(2, SPDZ_FIXED_PRECISION)\<close> is computed in
  \<open>double\<close> and is exact. The conversion of the rounded product to \<open>int64_t\<close> is defined
  only inside the range of that type; an infinity and NaN stay what they are under the
  product and \<open>round\<close>, and their conversion is not defined either.
\<close>

definition long_share :: "cfloat \<Rightarrow> fault + int" where
  "long_share x =
     (case x of
        Finite r \<Rightarrow>
          (let t = c_round (r * 2 ^ SPDZ_FIXED_PRECISION)
           in if - (2 ^ 63) \<le> t \<and> t < 2 ^ 63 then Inr t else Inl Int64_Overflow)
      | _ \<Rightarrow> Inl Int64_Overflow)"

text \<open>Step 1 of \<open>send_private_batch_shares\<close> (lines 189-192).\<close>

fun fixed_point_shares :: "cfloat list \<Rightarrow> fault + int list" where
  "fixed_point_shares [] = Inr []"
| "fixed_point_shares (x # xs) =
     (case long_share x of
        Inl e \<Rightarrow> Inl e
      | Inr t \<Rightarrow> (case fixed_point_shares xs of Inl e \<Rightarrow> Inl e | Inr ts \<Rightarrow> Inr (t # ts)))"

text \<open>\<open>send_private_batch_shares\<close> (lines 183-204).\<close>

definition send_private_batch_shares ::
  "int \<Rightarrow> cfloat list \<Rightarrow> nat \<Rightarrow> channel list \<Rightarrow> (fault + unit) \<times> channel list" where
  "send_private_batch_shares p shares n_parties sockets =
     (case fixed_point_shares shares of
        Inl e \<Rightarrow> (Inl e, sockets)
      | Inr long_shares \<Rightarrow>
          send_private_inputs p (map (gfp_assign p) long_shares) n_parties sockets)"

text \<open>
  The floats for which step 1 is defined: the finite floats whose rounded product with
  \<open>2^8\<close> is in the range of \<open>int64_t\<close>.
\<close>

definition encodable :: "cfloat \<Rightarrow> bool" where
  "encodable x \<longleftrightarrow>
     (case x of
        Finite r \<Rightarrow> - (2 ^ 63) \<le> c_round (r * 2 ^ 8) \<and> c_round (r * 2 ^ 8) < 2 ^ 63
      | _ \<Rightarrow> False)"

text \<open>
  The inner loop of the receiving phase of \<open>receive_result\<close> (lines 253-258): one
  element is unpacked for every entry of \<open>output_values\<close> and added to it.
\<close>

fun add_values :: "int \<Rightarrow> octetStream \<Rightarrow> gfp list \<Rightarrow> gfp list option" where
  "add_values p os [] = Some []"
| "add_values p os (v # output_values) =
     (case unpack os of
        None \<Rightarrow> None
      | Some (x, os') \<Rightarrow>
          (case add_values p os' output_values of
             None \<Rightarrow> None
           | Some output_values' \<Rightarrow> Some (gfp_add p v x # output_values')))"

text \<open>The loop over the engines of lines 249-259.\<close>

fun receive_values ::
  "int \<Rightarrow> nat list \<Rightarrow> gfp list \<Rightarrow> channel list \<Rightarrow> (fault + gfp list) \<times> channel list" where
  "receive_values p [] output_values sockets = (Inr output_values, sockets)"
| "receive_values p (i # is) output_values sockets =
     (case Receive i sockets of
        (Inl e, sockets') \<Rightarrow> (Inl e, sockets')
      | (Inr os, sockets') \<Rightarrow>
          (case add_values p os output_values of
             None \<Rightarrow> (Inl Insufficient_Data, sockets')
           | Some output_values' \<Rightarrow> receive_values p is output_values' sockets'))"

text \<open>
  \<open>receive_result\<close> (lines 244-278). The reference parameter \<open>best_split_index\<close> is
  the second component of the value returned, and the parameter \<open>size\<close> is \<open>size'\<close>.
  \<open>to_double\<close> is the conversion of an \<open>int64_t\<close> to \<open>double\<close> and \<open>to_float\<close> the
  conversion of a \<open>double\<close> to \<open>float\<close>; the product with
  \<open>pow(2, -SPDZ_FIXED_PRECISION)\<close> is exact in \<open>double\<close>. A negative \<open>size\<close> fails in
  the constructor of \<open>output_values\<close>; with \<open>size = 0\<close> the constructor of
  \<open>res_shares\<close> is called with the length \<open>size - 1\<close>, which no vector can have.
  The receiving loop keeps the length of \<open>output_values\<close>, so every index used after
  it is in range.
\<close>

definition receive_result ::
  "(rat \<Rightarrow> rat) \<Rightarrow> (rat \<Rightarrow> rat) \<Rightarrow> int \<Rightarrow> nat \<Rightarrow> int \<Rightarrow> channel list \<Rightarrow>
     (fault + rat list \<times> int) \<times> channel list" where
  "receive_result to_double to_float p n_parties size' sockets =
     (if size' < 0 then (Inl Bad_Length, sockets)
      else
        (case receive_values p [0..<n_parties] (replicate (nat size') 0) sockets of
           (Inl e, sockets1) \<Rightarrow> (Inl e, sockets1)
         | (Inr output_values, sockets1) \<Rightarrow>
             if size' - 1 < 0 then (Inl Bad_Length, sockets1)
             else
               (let res_shares =
                      map (\<lambda>i. let val = output_values ! i;
                                   aa = to_signed_bigint p val;
                                   t = get_si aa
                               in to_float (to_double (of_int t) * (1 / 2 ^ SPDZ_FIXED_PRECISION)))
                          [0..<nat (size' - 1)];
                    index = output_values ! (nat (size' - 1));
                    index_aa = to_signed_bigint p index;
                    best_split_index = long_to_int (get_si index_aa)
                in (Inr (res_shares, best_split_index), sockets1))))"

text \<open>
  The sum in the field of a sequence of shares, added in their order to 0: the value
  that the receiving loops hold for one position once every engine has reported.
\<close>

definition field_sum :: "int \<Rightarrow> gfp list \<Rightarrow> gfp" where
  "field_sum p xs = fold (\<lambda>x acc. gfp_add p acc x) xs 0"

text \<open>
  Element \<open>k\<close> of the buffer that engine \<open>j\<close> sends next, and the sum over the engines
  \<open>0..n_parties-1\<close> of these elements.
\<close>

definition next_element :: "channel list \<Rightarrow> nat \<Rightarrow> nat \<Rightarrow> gfp" where
  "next_element sockets j k = hd (inbox (sockets ! j)) ! k"

definition aggregated :: "int \<Rightarrow> channel list \<Rightarrow> nat \<Rightarrow> nat \<Rightarrow> gfp" where
  "aggregated p sockets n_parties k =
     field_sum p (map (\<lambda>j. next_element sockets j k) [0..<n_parties])"

text \<open>
  Every engine \<open>0..n_parties-1\<close> has a connection, and the next buffer that it sends
  holds at least \<open>m\<close> elements.
\<close>

definition engines_ready :: "channel list \<Rightarrow> nat \<Rightarrow> nat \<Rightarrow> bool" where
  "engines_ready sockets n_parties m \<longleftrightarrow>
     n_parties \<le> length sockets \<and>
     list_all (\<lambda>j. inbox (sockets ! j) \<noteq> [] \<and> m \<le> length (hd (inbox (sockets ! j))))
              [0..<n_parties]"

text \<open>
  The value that a receiving loop holds for position \<open>k\<close> after the engines \<open>js\<close>
  have reported, when it held \<open>a\<close> before.
\<close>

definition acc_shares :: "int \<Rightarrow> channel list \<Rightarrow> nat list \<Rightarrow> nat \<Rightarrow> gfp \<Rightarrow> gfp" where
  "acc_shares p sockets js k a = fold (\<lambda>j acc. gfp_add p acc (next_element sockets j k)) js a"

text \<open>
  The aggregated triple of input \<open>i\<close> is made of the sums at the positions \<open>3 i\<close>,
  \<open>3 i + 1\<close> and \<open>3 i + 2\<close>; it is consistent when the product of the first two is the
  third.
\<close>

definition triple_ok :: "int \<Rightarrow> channel list \<Rightarrow> nat \<Rightarrow> nat \<Rightarrow> bool" where
  "triple_ok p sockets n_parties i \<longleftrightarrow>
     gfp_mul p (aggregated p sockets n_parties (3 * i)) (aggregated p sockets n_parties (3 * i + 1)) =
       aggregated p sockets n_parties (3 * i + 2)"

subsection \<open>The quantile split engine\<close>

text \<open>Line 57: the number of split values of a feature.\<close>

definition MAX_SPLIT_NUM :: nat where
  "MAX_SPLIT_NUM = 8"

text \<open>
  What the C++ standard requires of the comparison of \<open>std::sort\<close> on the elements of
  the range: a strict weak ordering. It is irreflexive and transitive, and so is the
  relation of two elements of which neither compares less than the other.
\<close>

definition strict_weak_order_on :: "('a \<Rightarrow> 'a \<Rightarrow> bool) \<Rightarrow> 'a list \<Rightarrow> bool" where
  "strict_weak_order_on cmp xs \<longleftrightarrow>
     list_all (\<lambda>a. \<not> cmp a a) xs \<and>
     list_all (\<lambda>a. list_all (\<lambda>b. list_all (\<lambda>c.
         (cmp a b \<and> cmp b c \<longrightarrow> cmp a c) \<and>
         (\<not> cmp a b \<and> \<not> cmp b a \<and> \<not> cmp b c \<and> \<not> cmp c b \<longrightarrow> \<not> cmp a c \<and> \<not> cmp c a))
       xs) xs) xs"

text \<open>
  What the C++ standard promises of \<open>std::sort(first, last, cmp)\<close> when the comparison
  meets that requirement: the range holds the elements it held, and no element compares
  less than an element before it. The order of elements of which neither compares less than
  the other is left open, and the library's algorithm is not part of the sources: \<open>ys\<close> is
  a content that the call may leave in a range that held \<open>xs\<close>. When the comparison does
  not meet the requirement, the behaviour of the call is undefined, and no \<open>ys\<close> is
  related to \<open>xs\<close>.
\<close>

definition std_sort_post :: "('a \<Rightarrow> 'a \<Rightarrow> bool) \<Rightarrow> 'a list \<Rightarrow> 'a list \<Rightarrow> bool" where
  "std_sort_post cmp xs ys \<longleftrightarrow>
     strict_weak_order_on cmp xs \<and> mset ys = mset xs \<and> sorted_wrt (\<lambda>a b. \<not> cmp b a) ys"

text \<open>
  \<open>sort_indexes\<close> (lines 316-328): \<open>iota\<close> fills \<open>idx\<close> with \<open>0..n-1\<close>, and
  \<open>std::sort\<close> orders it with the comparison \<open>v[i1] < v[i2]\<close>. The vector that the
  library returns is a parameter of what follows: \<open>sort_indexes v idx\<close> holds when
  \<open>idx\<close> is a vector that the contract of \<open>std::sort\<close> allows the call to return. What
  is proved of every such vector holds of the vector that the library returns.
\<close>

definition sort_indexes :: "cfloat list \<Rightarrow> nat list \<Rightarrow> bool" where
  "sort_indexes v idx \<longleftrightarrow>
     std_sort_post (\<lambda>i1 i2. flt (v ! i1) (v ! i2)) [0..<length v] idx"

text \<open>
  \<open>operator[]\<close> of a vector: an index past the end is undefined behaviour, a fault here.
\<close>

definition at_index :: "'a list \<Rightarrow> nat \<Rightarrow> fault + 'a" where
  "at_index xs i = (if i < length xs then Inr (xs ! i) else Inl Index_Out_Of_Range)"

text \<open>The expression \<open>feature_values[sorted_indexes[k]]\<close>.\<close>

definition sorted_value :: "cfloat list \<Rightarrow> nat list \<Rightarrow> nat \<Rightarrow> fault + cfloat" where
  "sorted_value feature_values sorted_indexes k =
     (case at_index sorted_indexes k of Inl e \<Rightarrow> Inl e | Inr i \<Rightarrow> at_index feature_values i)"

text \<open>
  The body of the loop of \<open>compute_distinct_values\<close> (lines 339-349) for the value
  \<open>x = feature_values[sorted_indexes[i]]\<close>. The counter \<open>distinct_value_num\<close> of the
  source is always the size of \<open>distinct_values\<close>, and is that size here.
\<close>

definition push_distinct :: "cfloat list \<Rightarrow> cfloat \<Rightarrow> cfloat list" where
  "push_distinct distinct_values x =
     (if length distinct_values = 0 then distinct_values @ [x]
      else if feq (distinct_values ! (length distinct_values - 1)) x then distinct_values
      else distinct_values @ [x])"

text \<open>
  The loop of \<open>compute_distinct_values\<close> (lines 337-350), over the positions still to
  visit.
\<close>

fun distinct_loop ::
  "cfloat list \<Rightarrow> nat list \<Rightarrow> nat list \<Rightarrow> cfloat list \<Rightarrow> fault + cfloat list" where
  "distinct_loop feature_values sorted_indexes [] distinct_values = Inr distinct_values"
| "distinct_loop feature_values sorted_indexes (i # is) distinct_values =
     (case sorted_value feature_values sorted_indexes i of
        Inl e \<Rightarrow> Inl e
      | Inr x \<Rightarrow>
          distinct_loop feature_values sorted_indexes is (push_distinct distinct_values x))"

text \<open>\<open>compute_distinct_values\<close> (lines 331-352).\<close>

definition compute_distinct_values :: "cfloat list \<Rightarrow> nat list \<Rightarrow> fault + cfloat list" where
  "compute_distinct_values feature_values sorted_indexes =
     (let sample_num = length feature_values
      in distinct_loop feature_values sorted_indexes [0..<sample_num] [])"

text \<open>
  The expression \<open>(a + b) / 2\<close> on \<open>float\<close> operands (lines 382-383): the sum and the
  quotient are each rounded to \<open>float\<close>.
\<close>

definition float_average :: "(rat \<Rightarrow> cfloat) \<Rightarrow> cfloat \<Rightarrow> cfloat \<Rightarrow> cfloat" where
  "float_average to_float a b = fhalf to_float (fadd to_float a b)"

text \<open>
  The loop of the continuous branch of \<open>compute_splits\<close> (lines 381-385), over the
  values of \<open>i\<close> still to visit: the split values in the order in which they are pushed.
\<close>

fun split_values_loop ::
  "(rat \<Rightarrow> cfloat) \<Rightarrow> cfloat list \<Rightarrow> nat list \<Rightarrow> nat \<Rightarrow> nat list \<Rightarrow> fault + cfloat list" where
  "split_values_loop to_float feature_values sorted_indexes n_sample_per_bin [] = Inr []"
| "split_values_loop to_float feature_values sorted_indexes n_sample_per_bin (i # is) =
     (case sorted_value feature_values sorted_indexes ((i + 1) * n_sample_per_bin) of
        Inl e \<Rightarrow> Inl e
      | Inr a \<Rightarrow>
          (case sorted_value feature_values sorted_indexes ((i + 1) * n_sample_per_bin + 1) of
             Inl e \<Rightarrow> Inl e
           | Inr b \<Rightarrow>
               (case split_values_loop to_float feature_values sorted_indexes n_sample_per_bin is of
                  Inl e \<Rightarrow> Inl e
                | Inr split_values \<Rightarrow> Inr (float_average to_float a b # split_values))))"

text \<open>
  \<open>compute_splits\<close> (lines 355-412). The vector \<open>sorted_indexes\<close> that the call of
  \<open>sort_indexes\<close> in line 371 returns is a parameter. The value is the list of the lines
  written to \<open>cout\<close> and the vector \<open>split_params\<close>.
\<close>

definition compute_splits ::
  "(rat \<Rightarrow> cfloat) \<Rightarrow> nat list \<Rightarrow> cfloat list \<Rightarrow> fault + string list \<times> cfloat list" where
  "compute_splits to_float sorted_indexes feature_values =
     (let n_samples = length feature_values
      in case compute_distinct_values feature_values sorted_indexes of
           Inl e \<Rightarrow> Inl e
         | Inr distinct_values \<Rightarrow>
             if length distinct_values \<ge> MAX_SPLIT_NUM + 1 then
               (let n_sample_per_bin = n_samples div (MAX_SPLIT_NUM + 1)
                in case split_values_loop to_float feature_values sorted_indexes
                          n_sample_per_bin [0..<MAX_SPLIT_NUM] of
                     Inl e \<Rightarrow> Inl e
                   | Inr split_values \<Rightarrow>
                       Inr ([], Finite (of_nat MAX_SPLIT_NUM) # split_values))
             else if length distinct_values > 1 then
               Inr ([], Finite (of_nat (length distinct_values - 1)) #
                        map (\<lambda>i. if i \<le> length distinct_values - 1 then distinct_values ! i
                                  else Finite (- 1))
                            [0..<MAX_SPLIT_NUM])
             else
               Inr ([''This feature has only one distinct value, please check it again''],
                    Finite 0 # replicate MAX_SPLIT_NUM (Finite (- 1))))"


section \<open>Properties\<close>

declare SPDZ_FIXED_PRECISION_def [simp]

subsection \<open>Floating-point numbers\<close>

lemma Finite_le [simp]: "Finite x \<le> Finite y \<longleftrightarrow> x \<le> y"
  by (simp add: less_eq_cfloat_def)

lemma Finite_less [simp]: "Finite x < Finite y \<longleftrightarrow> x < y"
  by (simp add: less_cfloat_def)

lemma feq_eq: "a \<noteq> NaN \<Longrightarrow> feq a b \<longleftrightarrow> a = b"
  by (auto simp: feq_def)

lemma feq_imp_eq: "feq a b \<Longrightarrow> a = b"
  by (simp add: feq_def)

lemma not_flt_le: "a \<noteq> NaN \<Longrightarrow> b \<noteq> NaN \<Longrightarrow> \<not> flt b a \<longleftrightarrow> a \<le> b"
  by (auto simp: flt_def)


lemma fle_le: "a \<noteq> NaN \<Longrightarrow> b \<noteq> NaN \<Longrightarrow> fle a b \<longleftrightarrow> a \<le> b"
  by (simp add: fle_def)

subsection \<open>Indicator vectors\<close>

lemma split_iv_vectors_map:
  "split_iv_vectors c xs =
     (map (\<lambda>x. if fle x c then 1 else 0) xs, map (\<lambda>x. if fle x c then 0 else 1) xs)"
  by (induction xs) auto

lemma feature_split_fold:
  "fold (feature_split_step fv sv) ss (L, R) =
     (L @ map (\<lambda>s. map (\<lambda>x. if fle x (sv ! (s + 1)) then 1 else 0) fv) ss,
      R @ map (\<lambda>s. map (\<lambda>x. if fle x (sv ! (s + 1)) then 0 else 1) fv) ss)"
  by (induction ss arbitrary: L R)
     (simp_all add: feature_split_step_def split_iv_vectors_map Let_def)

lemma compute_feature_split_ivs_rows:
  "compute_feature_split_ivs fv sv L R =
     (L @ map (\<lambda>s. map (\<lambda>x. if fle x (sv ! (s + 1)) then 1 else 0) fv) [0..<length sv - 1],
      R @ map (\<lambda>s. map (\<lambda>x. if fle x (sv ! (s + 1)) then 0 else 1) fv) [0..<length sv - 1])"
  by (simp add: compute_feature_split_ivs_def feature_split_fold Let_def)

lemma compute_feature_split_ivs_tl:
  "compute_feature_split_ivs fv sv L R =
     (L @ map (\<lambda>c. map (\<lambda>x. if fle x c then 1 else 0) fv) (tl sv),
      R @ map (\<lambda>c. map (\<lambda>x. if fle x c then 0 else 1) fv) (tl sv))"
proof -
  have l: "map (\<lambda>s. map (\<lambda>x. if fle x (sv ! (s + 1)) then 1 else 0) fv) [0..<length sv - 1] =
           map (\<lambda>c. map (\<lambda>x. if fle x c then (1::int) else 0) fv) (tl sv)"
    by (rule nth_equalityI) (simp_all add: nth_tl)
  have r: "map (\<lambda>s. map (\<lambda>x. if fle x (sv ! (s + 1)) then 0 else 1) fv) [0..<length sv - 1] =
           map (\<lambda>c. map (\<lambda>x. if fle x c then (0::int) else 1) fv) (tl sv)"
    by (rule nth_equalityI) (simp_all add: nth_tl)
  show ?thesis
    by (simp only: compute_feature_split_ivs_rows l r)
qed

lemma collect_classes_set: "set (collect_classes cs ls) = set cs \<union> set ls"
  by (induction cs ls rule: collect_classes.induct) (auto simp: list_ex_iff dest: feq_imp_eq)

lemma first_occurrences_set: "set (first_occurrences xs) = set xs"
  by (induction xs) auto

lemma first_occurrences_distinct: "distinct (first_occurrences xs)"
  by (induction xs) (auto simp: distinct_removeAll)

lemma class_found:
  "NaN \<notin> set classes \<Longrightarrow> list_ex (\<lambda>c. feq c label) classes \<longleftrightarrow> label \<in> set classes"
  by (auto simp: list_ex_iff feq_def)

lemma collect_classes_first_occurrences:
  "NaN \<notin> set cs \<Longrightarrow> NaN \<notin> set ls \<Longrightarrow>
   collect_classes cs ls = cs @ filter (\<lambda>x. x \<notin> set cs) (first_occurrences ls)"
proof (induction cs ls rule: collect_classes.induct)
  case (1 classes)
  then show ?case by simp
next
  case (2 classes label labels)
  from "2.prems" have nl: "NaN \<notin> set labels" and lab: "label \<noteq> NaN"
    by auto
  show ?case
  proof (cases "label \<in> set classes")
    case True
    then have "collect_classes classes (label # labels) = collect_classes classes labels"
      using "2.prems"(1) by (simp add: class_found)
    also have "\<dots> = classes @ filter (\<lambda>x. x \<notin> set classes) (first_occurrences labels)"
      using "2.IH" "2.prems"(1) nl True by (simp add: class_found)
    also have "filter (\<lambda>x. x \<notin> set classes) (first_occurrences labels) =
               filter (\<lambda>x. x \<notin> set classes) (first_occurrences (label # labels))"
      using True by (simp add: removeAll_filter_not_eq) metis
    finally show ?thesis .
  next
    case False
    have n': "NaN \<notin> set (classes @ [label])"
      using "2.prems"(1) lab by auto
    from False have "collect_classes classes (label # labels) =
               collect_classes (classes @ [label]) labels"
      using "2.prems"(1) by (simp add: class_found)
    also have "\<dots> = (classes @ [label]) @
                 filter (\<lambda>x. x \<notin> set (classes @ [label])) (first_occurrences labels)"
      using "2.IH" "2.prems"(1) False n' nl by (simp add: class_found)
    also have "filter (\<lambda>x. x \<notin> set (classes @ [label])) (first_occurrences labels) =
               filter (\<lambda>x. x \<notin> set classes) (removeAll label (first_occurrences labels))"
      by (simp add: removeAll_filter_not_eq) metis
    finally show ?thesis using False by simp
  qed
qed

lemma label_classes:
  "NaN \<notin> set labels \<Longrightarrow> collect_classes [] labels = first_occurrences labels"
  using collect_classes_first_occurrences [of "[]" labels] by simp

lemma label_matrix:
  assumes "NaN \<notin> set labels"
  shows "compute_label_class_ivs labels =
           map (\<lambda>c. map (\<lambda>label. if label = c then 1 else 0) labels) (first_occurrences labels)"
proof -
  have "(if feq label c then 1 else 0) = (if label = c then 1 else (0::int))"
    if "label \<in> set labels" for label c
    using that assms by (auto simp: feq_def)
  then show ?thesis
    using assms by (simp add: compute_label_class_ivs_def label_classes cong: map_cong)
qed

lemma one_hot_count:
  "distinct cs \<Longrightarrow> y \<in> set cs \<Longrightarrow> length (filter (\<lambda>c. y = c) cs) = 1"
proof (induction cs)
  case Nil
  then show ?case by simp
next
  case (Cons c cs)
  show ?case
  proof (cases "y = c")
    case True
    with Cons.prems have "filter (\<lambda>c. y = c) cs = []"
      by (auto simp: filter_empty_conv)
    with True show ?thesis by simp
  next
    case False
    with Cons show ?thesis by simp
  qed
qed

lemma label_rows_one_hot:
  assumes "NaN \<notin> set labels" and "i < length labels"
  shows "length (filter (\<lambda>row. row ! i = 1) (compute_label_class_ivs labels)) = 1"
proof -
  let ?cs = "first_occurrences labels"
  have d: "distinct ?cs"
    by (rule first_occurrences_distinct)
  have m: "labels ! i \<in> set ?cs"
    using assms(2) by (simp add: first_occurrences_set)
  have "filter (\<lambda>row. row ! i = 1) (compute_label_class_ivs labels) =
        map (\<lambda>c. map (\<lambda>label. if label = c then 1 else 0) labels)
            (filter (\<lambda>c. labels ! i = c) ?cs)"
    using assms by (simp add: label_matrix filter_map o_def)
  then show ?thesis
    using one_hot_count [OF d m] by simp
qed

text \<open>
  C8. With empty matrices passed in, \<open>compute_feature_split_ivs\<close> returns one row pair
  per element of the parameter vector after the first; for all floats, NaN among them,
  entry \<open>i\<close> of left row \<open>s\<close> is 1 exactly when
  \<open>feature_values[i] <= split_values[s+1]\<close>, entry \<open>i\<close> of right row \<open>s\<close> is 1
  exactly when it is not, and the two entries add up to 1. For labels without NaN,
  \<open>compute_label_class_ivs\<close> lists the distinct labels in the order of their first
  occurrence and returns one row per class: entry \<open>i\<close> of row \<open>j\<close> is 1 when label \<open>i\<close>
  is class \<open>j\<close> and 0 otherwise, and for every sample exactly one row holds a 1.
\<close>

theorem indicator_partition:
  assumes "compute_feature_split_ivs feature_values split_values [] [] = (left, right)"
  shows "length left = length split_values - 1 \<and> length right = length split_values - 1 \<and>
         (\<forall>s < length split_values - 1.
            length (left ! s) = length feature_values \<and>
            length (right ! s) = length feature_values \<and>
            (\<forall>i < length feature_values.
               (left ! s ! i = 1 \<longleftrightarrow> fle (feature_values ! i) (split_values ! (s + 1))) \<and>
               (right ! s ! i = 1 \<longleftrightarrow> \<not> fle (feature_values ! i) (split_values ! (s + 1))) \<and>
               left ! s ! i + right ! s ! i = 1)) \<and>
         (NaN \<notin> set training_labels \<longrightarrow>
            collect_classes [] training_labels = first_occurrences training_labels \<and>
            length (compute_label_class_ivs training_labels) =
              length (first_occurrences training_labels) \<and>
            (\<forall>j < length (first_occurrences training_labels).
               length (compute_label_class_ivs training_labels ! j) = length training_labels \<and>
               (\<forall>i < length training_labels.
                  (compute_label_class_ivs training_labels ! j ! i = 1 \<longleftrightarrow>
                     training_labels ! i = first_occurrences training_labels ! j) \<and>
                  (compute_label_class_ivs training_labels ! j ! i = 0 \<longleftrightarrow>
                     training_labels ! i \<noteq> first_occurrences training_labels ! j))) \<and>
            (\<forall>i < length training_labels.
               length (filter (\<lambda>row. row ! i = 1) (compute_label_class_ivs training_labels)) = 1))"
proof -
  have l: "left = map (\<lambda>s. map (\<lambda>x. if fle x (split_values ! (s + 1)) then 1 else 0)
                               feature_values) [0..<length split_values - 1]"
    and r: "right = map (\<lambda>s. map (\<lambda>x. if fle x (split_values ! (s + 1)) then 0 else 1)
                               feature_values) [0..<length split_values - 1]"
    using assms by (simp_all add: compute_feature_split_ivs_rows)
  have feature: "length left = length split_values - 1 \<and> length right = length split_values - 1 \<and>
         (\<forall>s < length split_values - 1.
            length (left ! s) = length feature_values \<and>
            length (right ! s) = length feature_values \<and>
            (\<forall>i < length feature_values.
               (left ! s ! i = 1 \<longleftrightarrow> fle (feature_values ! i) (split_values ! (s + 1))) \<and>
               (right ! s ! i = 1 \<longleftrightarrow> \<not> fle (feature_values ! i) (split_values ! (s + 1))) \<and>
               left ! s ! i + right ! s ! i = 1))"
    by (simp add: l r)
  have labels: "collect_classes [] training_labels = first_occurrences training_labels \<and>
            length (compute_label_class_ivs training_labels) =
              length (first_occurrences training_labels) \<and>
            (\<forall>j < length (first_occurrences training_labels).
               length (compute_label_class_ivs training_labels ! j) = length training_labels \<and>
               (\<forall>i < length training_labels.
                  (compute_label_class_ivs training_labels ! j ! i = 1 \<longleftrightarrow>
                     training_labels ! i = first_occurrences training_labels ! j) \<and>
                  (compute_label_class_ivs training_labels ! j ! i = 0 \<longleftrightarrow>
                     training_labels ! i \<noteq> first_occurrences training_labels ! j))) \<and>
            (\<forall>i < length training_labels.
               length (filter (\<lambda>row. row ! i = 1) (compute_label_class_ivs training_labels)) = 1)"
    if n: "NaN \<notin> set training_labels"
    using label_rows_one_hot [OF n]
    by (simp add: label_matrix [OF n] label_classes [OF n])
  show ?thesis
    using feature labels by blast
qed

theorem indicator_partition_witness:
  "compute_feature_split_ivs [Finite 1, NaN, Finite 3] [Finite 2, Finite 1, Finite 3] [] [] =
     ([[1, 0, 0], [1, 0, 1]], [[0, 1, 1], [0, 1, 0]]) \<and>
   [[1, 0, 0], [1, 0, 1]] ! 1 ! 2 + [[0, 1, 1], [0, 1, 0]] ! 1 ! 2 = (1::int) \<and>
   NaN \<notin> set [Finite 7, Finite 4, Finite 7, PInf, Finite 4] \<and>
   collect_classes [] [Finite 7, Finite 4, Finite 7, PInf, Finite 4] = [Finite 7, Finite 4, PInf] \<and>
   first_occurrences [Finite 7, Finite 4, Finite 7, PInf, Finite 4] = [Finite 7, Finite 4, PInf] \<and>
   compute_label_class_ivs [Finite 7, Finite 4, Finite 7, PInf, Finite 4] =
     [[1, 0, 1, 0, 0], [0, 1, 0, 0, 1], [0, 0, 0, 1, 0]] \<and>
   length (filter (\<lambda>row. row ! 3 = 1)
     (compute_label_class_ivs [Finite 7, Finite 4, Finite 7, PInf, Finite 4])) = 1"
proof -
  let ?ls = "[Finite 7, Finite 4, Finite 7, PInf, Finite 4]"
  have h: "compute_feature_split_ivs [Finite 1, NaN, Finite 3] [Finite 2, Finite 1, Finite 3] [] [] =
             ([[1, 0, 0], [1, 0, 1]], [[0, 1, 1], [0, 1, 0]])"
    by code_simp
  have s: "[[1, 0, 0], [1, 0, 1]] ! 1 ! 2 + [[0, 1, 1], [0, 1, 0]] ! 1 ! 2 = (1::int)"
    by simp
  have n: "NaN \<notin> set ?ls"
    by simp
  have f: "first_occurrences ?ls = [Finite 7, Finite 4, PInf]"
    by simp
  have v: "compute_label_class_ivs ?ls = [[1, 0, 1, 0, 0], [0, 1, 0, 0, 1], [0, 0, 0, 1, 0]]"
    by code_simp
  have i: "3 < length ?ls"
    by simp
  note t = indicator_partition [OF h, of ?ls, THEN conjunct2, THEN conjunct2, THEN conjunct2,
             rule_format, OF n]
  from t have c: "collect_classes [] ?ls = first_occurrences ?ls"
    by (rule conjunct1)
  from t [THEN conjunct2, THEN conjunct2, THEN conjunct2, rule_format, OF i]
  have o: "length (filter (\<lambda>row. row ! 3 = 1) (compute_label_class_ivs ?ls)) = 1" .
  show ?thesis
    using h s n c f v o by (simp only:) simp
qed

text \<open>
  The label half does not hold of labels that hold NaN: a NaN label opens a class at each of
  its occurrences, and no row holds a 1 for its sample.
\<close>

theorem label_classes_nan_counterexample:
  "collect_classes [] [NaN, Finite 1, NaN] = [NaN, Finite 1, NaN] \<and>
   compute_label_class_ivs [NaN, Finite 1, NaN] = [[0, 0, 0], [0, 1, 0], [0, 0, 0]] \<and>
   length (filter (\<lambda>row. row ! 0 = 1) (compute_label_class_ivs [NaN, Finite 1, NaN])) = 0"
  by (simp add: compute_label_class_ivs_def feq_def)

text \<open>
  C10. \<open>compute_feature_split_ivs\<close> appends one row pair for each element of the
  parameter vector after the first, and row \<open>s\<close> is the comparison of the feature values
  with \<open>split_values[s+1]\<close>, whatever that element is: a slot that holds the sentinel
  \<open>-1\<close> gives the rows of the threshold \<open>-1\<close>, with a 1 on the left for every feature
  value \<open><= -1\<close>. The result does not depend on element 0 of the vector. For a 9-element
  vector there are 8 row pairs; for the degenerate vector \<open>[0, -1, ..., -1]\<close> and feature
  values that are all positive, every left row is all 0 and every right row is all 1.
\<close>

theorem split_ivs_ignore_declared_count:
  "compute_feature_split_ivs feature_values split_values [] [] =
     (map (\<lambda>s. map (\<lambda>x. if fle x (split_values ! (s + 1)) then 1 else 0) feature_values)
          [0..<length split_values - 1],
      map (\<lambda>s. map (\<lambda>x. if fle x (split_values ! (s + 1)) then 0 else 1) feature_values)
          [0..<length split_values - 1]) \<and>
   (\<forall>s < length split_values - 1. \<forall>i < length feature_values.
      split_values ! (s + 1) = Finite (- 1) \<longrightarrow>
        (fst (compute_feature_split_ivs feature_values split_values [] []) ! s ! i = 1 \<longleftrightarrow>
           fle (feature_values ! i) (Finite (- 1))) \<and>
        (snd (compute_feature_split_ivs feature_values split_values [] []) ! s ! i = 1 \<longleftrightarrow>
           \<not> fle (feature_values ! i) (Finite (- 1)))) \<and>
   compute_feature_split_ivs feature_values (c # thresholds) left right =
     compute_feature_split_ivs feature_values (c' # thresholds) left right \<and>
   (length split_values = 9 \<longrightarrow>
      length (fst (compute_feature_split_ivs feature_values split_values [] [])) = 8 \<and>
      length (snd (compute_feature_split_ivs feature_values split_values [] [])) = 8) \<and>
   ((\<forall>x \<in> set feature_values. flt (Finite 0) x) \<longrightarrow>
      compute_feature_split_ivs feature_values (Finite 0 # replicate 8 (Finite (- 1))) [] [] =
        (replicate 8 (replicate (length feature_values) 0),
         replicate 8 (replicate (length feature_values) 1)))"
proof -
  have pos: "map (\<lambda>x. if fle x (Finite (- 1)) then 1 else 0) feature_values =
          replicate (length feature_values) (0::int) \<and>
        map (\<lambda>x. if fle x (Finite (- 1)) then 0 else 1) feature_values =
          replicate (length feature_values) (1::int)"
    if "\<forall>x \<in> set feature_values. flt (Finite 0) x"
    using that
  proof (induction feature_values)
    case Nil
    then show ?case by simp
  next
    case (Cons x xs)
    from Cons.prems have "flt (Finite 0) x" by simp
    then have "\<not> fle x (Finite (- 1))"
      by (cases x) (auto simp: flt_def fle_def less_cfloat_def less_eq_cfloat_def)
    with Cons show ?case by simp
  qed
  have rows: "compute_feature_split_ivs feature_values split_values [] [] =
     (map (\<lambda>s. map (\<lambda>x. if fle x (split_values ! (s + 1)) then 1 else 0) feature_values)
          [0..<length split_values - 1],
      map (\<lambda>s. map (\<lambda>x. if fle x (split_values ! (s + 1)) then 0 else 1) feature_values)
          [0..<length split_values - 1])"
    by (simp add: compute_feature_split_ivs_rows)
  have sentinel: "\<forall>s < length split_values - 1. \<forall>i < length feature_values.
      split_values ! (s + 1) = Finite (- 1) \<longrightarrow>
        (fst (compute_feature_split_ivs feature_values split_values [] []) ! s ! i = 1 \<longleftrightarrow>
           fle (feature_values ! i) (Finite (- 1))) \<and>
        (snd (compute_feature_split_ivs feature_values split_values [] []) ! s ! i = 1 \<longleftrightarrow>
           \<not> fle (feature_values ! i) (Finite (- 1)))"
    by (simp add: rows)
  have indep: "compute_feature_split_ivs feature_values (c # thresholds) left right =
     compute_feature_split_ivs feature_values (c' # thresholds) left right"
    by (simp add: compute_feature_split_ivs_tl)
  have eight: "length (fst (compute_feature_split_ivs feature_values split_values [] [])) = 8 \<and>
      length (snd (compute_feature_split_ivs feature_values split_values [] [])) = 8"
    if "length split_values = 9"
    using that by (simp add: rows)
  have deg: "compute_feature_split_ivs feature_values (Finite 0 # replicate 8 (Finite (- 1))) [] [] =
        (replicate 8 (replicate (length feature_values) 0),
         replicate 8 (replicate (length feature_values) 1))"
    if "\<forall>x \<in> set feature_values. flt (Finite 0) x"
    using pos [OF that] by (simp add: compute_feature_split_ivs_tl map_replicate_const)
  show ?thesis
    using rows sentinel indep eight deg by blast
qed

theorem split_ivs_ignore_declared_count_witness:
  "length [Finite 0, Finite (- 1), Finite (- 1), Finite (- 1), Finite (- 1), Finite (- 1),
           Finite (- 1), Finite (- 1), Finite (- 1)] = 9 \<and>
   [Finite 0, Finite (- 1), Finite (- 1), Finite (- 1), Finite (- 1), Finite (- 1),
    Finite (- 1), Finite (- 1), Finite (- 1)] ! (7 + 1) = Finite (- 1) \<and>
   fle ([Finite (- 2), Finite 4, NaN] ! 0) (Finite (- 1)) \<and>
   fst (compute_feature_split_ivs [Finite (- 2), Finite 4, NaN]
          [Finite 0, Finite (- 1), Finite (- 1), Finite (- 1), Finite (- 1), Finite (- 1),
           Finite (- 1), Finite (- 1), Finite (- 1)] [] []) ! 7 ! 0 = 1 \<and>
   compute_feature_split_ivs [Finite (- 2), Finite 4, NaN]
          [Finite 0, Finite (- 1), Finite (- 1), Finite (- 1), Finite (- 1), Finite (- 1),
           Finite (- 1), Finite (- 1), Finite (- 1)] [] [] =
     (replicate 8 [1, 0, 0], replicate 8 [0, 1, 1]) \<and>
   list_all (\<lambda>x. flt (Finite 0) x) [Finite 4, Finite 4, PInf] \<and>
   compute_feature_split_ivs [Finite 4, Finite 4, PInf]
       (Finite 0 # replicate 8 (Finite (- 1))) [] [] =
     (replicate 8 (replicate (length [Finite 4, Finite 4, PInf]) 0),
      replicate 8 (replicate (length [Finite 4, Finite 4, PInf]) 1))"
proof -
  let ?sv = "[Finite 0, Finite (- 1), Finite (- 1), Finite (- 1), Finite (- 1), Finite (- 1),
              Finite (- 1), Finite (- 1), Finite (- 1)]"
  let ?fv = "[Finite (- 2), Finite 4, NaN]"
  let ?pv = "[Finite 4, Finite 4, PInf]"
  have l: "length ?sv = 9"
    by simp
  have s: "7 < length ?sv - 1" and i: "0 < length ?fv" and m: "?sv ! (7 + 1) = Finite (- 1)"
    by simp_all
  have f: "fle (?fv ! 0) (Finite (- 1))"
    by (simp add: fle_def)
  have p: "\<forall>x \<in> set ?pv. flt (Finite 0) x"
    by (simp add: flt_def less_cfloat_def)
  have p': "list_all (\<lambda>x. flt (Finite 0) x) ?pv"
    by (simp add: flt_def less_cfloat_def)
  have e: "compute_feature_split_ivs ?fv ?sv [] [] = (replicate 8 [1, 0, 0], replicate 8 [0, 1, 1])"
    by code_simp
  note t = split_ivs_ignore_declared_count [of ?fv ?sv]
  from t [THEN conjunct2, THEN conjunct1, rule_format, OF s i m] f
  have a: "fst (compute_feature_split_ivs ?fv ?sv [] []) ! 7 ! 0 = 1"
    by (simp only:)
  from split_ivs_ignore_declared_count [of ?pv, THEN conjunct2, THEN conjunct2, THEN conjunct2,
         THEN conjunct2, THEN mp, OF p]
  have d: "compute_feature_split_ivs ?pv (Finite 0 # replicate 8 (Finite (- 1))) [] [] =
     (replicate 8 (replicate (length ?pv) 0), replicate 8 (replicate (length ?pv) 1))" .
  show ?thesis
    by (intro conjI l m f a e p' d)
qed

subsection \<open>The secret-sharing protocol client\<close>

lemma aggregated_acc_shares: "aggregated p sockets n k = acc_shares p sockets [0..<n] k 0"
  by (simp add: aggregated_def field_sum_def acc_shares_def fold_map o_def)

lemma acc_shares_Cons:
  "acc_shares p s (j # js) k a = acc_shares p s js k (gfp_add p a (next_element s j k))"
  by (simp add: acc_shares_def)

lemma acc_shares_cong:
  "(\<And>j. j \<in> set js \<Longrightarrow> inbox (s' ! j) = inbox (s ! j)) \<Longrightarrow>
   acc_shares p s' js k a = acc_shares p s js k a"
  unfolding acc_shares_def
  by (rule fold_cong) (simp_all add: next_element_def)

lemma add_triple_shares_ok:
  "3 * length ts \<le> length os \<Longrightarrow>
   \<exists>ts'. add_triple_shares p os ts = Some ts' \<and> length ts' = length ts \<and>
     (\<forall>i < length ts. ts' ! i =
        (gfp_add p (fst (ts ! i)) (os ! (3 * i)),
         gfp_add p (fst (snd (ts ! i))) (os ! (3 * i + 1)),
         gfp_add p (snd (snd (ts ! i))) (os ! (3 * i + 2))))"
proof (induction p os ts rule: add_triple_shares.induct)
  case (1 p os)
  then show ?case by simp
next
  case (2 p os a b c triples)
  from "2.prems" have "Suc (Suc (Suc (3 * length triples))) \<le> length os" by simp
  then obtain x0 x1 x2 os2 where os: "os = x0 # x1 # x2 # os2"
    and len: "3 * length triples \<le> length os2"
    by (auto simp: Suc_le_length_iff)
  have u: "unpack os = Some (x0, x1 # x2 # os2)" "unpack (x1 # x2 # os2) = Some (x1, x2 # os2)"
    "unpack (x2 # os2) = Some (x2, os2)"
    by (simp_all add: unpack_def os)
  from "2.IH" [OF u(1) refl u(2) refl u(3) refl len]
  obtain ts' where ts': "add_triple_shares p os2 triples = Some ts'" "length ts' = length triples"
    and nth: "\<forall>i < length triples. ts' ! i =
        (gfp_add p (fst (triples ! i)) (os2 ! (3 * i)),
         gfp_add p (fst (snd (triples ! i))) (os2 ! (3 * i + 1)),
         gfp_add p (snd (snd (triples ! i))) (os2 ! (3 * i + 2)))"
    by blast
  have "add_triple_shares p os ((a, b, c) # triples) =
          Some ((gfp_add p a x0, gfp_add p b x1, gfp_add p c x2) # ts')"
    using u ts' by simp
  moreover have "\<forall>i < length ((a, b, c) # triples).
      ((gfp_add p a x0, gfp_add p b x1, gfp_add p c x2) # ts') ! i =
        (gfp_add p (fst (((a, b, c) # triples) ! i)) (os ! (3 * i)),
         gfp_add p (fst (snd (((a, b, c) # triples) ! i))) (os ! (3 * i + 1)),
         gfp_add p (snd (snd (((a, b, c) # triples) ! i))) (os ! (3 * i + 2)))"
  proof (intro allI impI)
    fix i assume "i < length ((a, b, c) # triples)"
    then show "((gfp_add p a x0, gfp_add p b x1, gfp_add p c x2) # ts') ! i =
        (gfp_add p (fst (((a, b, c) # triples) ! i)) (os ! (3 * i)),
         gfp_add p (fst (snd (((a, b, c) # triples) ! i))) (os ! (3 * i + 1)),
         gfp_add p (snd (snd (((a, b, c) # triples) ! i))) (os ! (3 * i + 2)))"
      using nth by (cases i) (simp_all add: os numeral_3_eq_3)
  qed
  ultimately show ?case using ts' by simp
qed


lemma Receive_ok:
  assumes "j < length s" "inbox (s ! j) \<noteq> []"
  shows "Receive j s = (Inr (hd (inbox (s ! j))), s[j := (s ! j)\<lparr>inbox := tl (inbox (s ! j))\<rparr>])"
  using assms by (cases "inbox (s ! j)") (simp_all add: Receive_def)

lemma outbox_after_Receive:
  "map outbox (s[j := (s ! j)\<lparr>inbox := ms\<rparr>]) = map outbox s"
  by (cases "j < length s") (simp_all add: map_update list_update_same_conv list_update_beyond)

lemma receive_triples_ok:
  assumes "distinct js"
    and "\<forall>j \<in> set js. j < length s \<and> inbox (s ! j) \<noteq> [] \<and>
           3 * length ts \<le> length (hd (inbox (s ! j)))"
  shows "\<exists>s'. receive_triples p js ts s =
           (Inr (map (\<lambda>i. (acc_shares p s js (3 * i) (fst (ts ! i)),
                           acc_shares p s js (3 * i + 1) (fst (snd (ts ! i))),
                           acc_shares p s js (3 * i + 2) (snd (snd (ts ! i)))))
                     [0..<length ts]), s') \<and>
         length s' = length s \<and> map outbox s' = map outbox s"
  using assms
proof (induction js arbitrary: ts s)
  case Nil
  have "map (\<lambda>i. (fst (ts ! i), fst (snd (ts ! i)), snd (snd (ts ! i)))) [0..<length ts] = ts"
    by (rule nth_equalityI) simp_all
  then show ?case by (simp add: acc_shares_def)
next
  case (Cons j js)
  let ?os = "hd (inbox (s ! j))"
  let ?s1 = "s[j := (s ! j)\<lparr>inbox := tl (inbox (s ! j))\<rparr>]"
  from Cons.prems have j: "j < length s" "inbox (s ! j) \<noteq> []" "3 * length ts \<le> length ?os"
    by simp_all
  have rcv: "Receive j s = (Inr ?os, ?s1)"
    using j(1,2) by (rule Receive_ok)
  from add_triple_shares_ok [OF j(3), of p]
  obtain ts1 where ts1: "add_triple_shares p ?os ts = Some ts1" "length ts1 = length ts"
    and nth: "\<forall>i < length ts. ts1 ! i =
        (gfp_add p (fst (ts ! i)) (?os ! (3 * i)),
         gfp_add p (fst (snd (ts ! i))) (?os ! (3 * i + 1)),
         gfp_add p (snd (snd (ts ! i))) (?os ! (3 * i + 2)))"
    by blast
  have same: "inbox (?s1 ! j') = inbox (s ! j')" if "j' \<in> set js" for j'
    using that Cons.prems(1) by (cases "j' = j") auto
  have pre: "\<forall>j' \<in> set js. j' < length ?s1 \<and> inbox (?s1 ! j') \<noteq> [] \<and>
               3 * length ts1 \<le> length (hd (inbox (?s1 ! j')))"
    using Cons.prems(2) same ts1(2) by simp
  from Cons.prems(1) have "distinct js" by simp
  from Cons.IH [OF this pre]
  obtain s' where s': "receive_triples p js ts1 ?s1 =
           (Inr (map (\<lambda>i. (acc_shares p ?s1 js (3 * i) (fst (ts1 ! i)),
                           acc_shares p ?s1 js (3 * i + 1) (fst (snd (ts1 ! i))),
                           acc_shares p ?s1 js (3 * i + 2) (snd (snd (ts1 ! i)))))
                     [0..<length ts1]), s')"
    and len: "length s' = length ?s1" and out: "map outbox s' = map outbox ?s1"
    by blast
  have eq: "map (\<lambda>i. (acc_shares p ?s1 js (3 * i) (fst (ts1 ! i)),
                      acc_shares p ?s1 js (3 * i + 1) (fst (snd (ts1 ! i))),
                      acc_shares p ?s1 js (3 * i + 2) (snd (snd (ts1 ! i)))))
                [0..<length ts1] =
            map (\<lambda>i. (acc_shares p s (j # js) (3 * i) (fst (ts ! i)),
                      acc_shares p s (j # js) (3 * i + 1) (fst (snd (ts ! i))),
                      acc_shares p s (j # js) (3 * i + 2) (snd (snd (ts ! i)))))
                [0..<length ts]"
    using nth ts1(2) same
    by (intro nth_equalityI)
       (simp_all add: acc_shares_Cons acc_shares_cong [of js ?s1 s] next_element_def)
  have "receive_triples p (j # js) ts s = receive_triples p js ts1 ?s1"
    using rcv ts1(1) by simp
  with s' eq len out show ?case
    by (simp add: outbox_after_Receive)
qed

lemma check_triples_None:
  "check_triples p i ts = None \<longleftrightarrow> (\<forall>k < length ts. gfp_mul p (fst (ts ! k)) (fst (snd (ts ! k))) = snd (snd (ts ! k)))"
proof (induction p i ts rule: check_triples.induct)
  case (1 p i)
  then show ?case by simp
next
  case (2 p i a b c triples)
  then show ?case
    by (auto simp: nth_Cons split: nat.splits)
qed

lemma check_triples_Some:
  "check_triples p i ts = Some k \<Longrightarrow>
     i \<le> k \<and> k - i < length ts \<and>
     gfp_mul p (fst (ts ! (k - i))) (fst (snd (ts ! (k - i)))) \<noteq> snd (snd (ts ! (k - i))) \<and>
     (\<forall>m < k - i. gfp_mul p (fst (ts ! m)) (fst (snd (ts ! m))) = snd (snd (ts ! m)))"
proof (induction p i ts rule: check_triples.induct)
  case (1 p i)
  then show ?case by simp
next
  case (2 p i a b c triples)
  show ?case
  proof (cases "gfp_mul p a b \<noteq> c")
    case True
    with "2.prems" show ?thesis by simp
  next
    case False
    with "2.prems" have r: "check_triples p (i + 1) triples = Some k" by simp
    from "2.IH" [OF _ r] False
    have ih: "i + 1 \<le> k" "k - (i + 1) < length triples"
      "gfp_mul p (fst (triples ! (k - (i + 1)))) (fst (snd (triples ! (k - (i + 1))))) \<noteq>
         snd (snd (triples ! (k - (i + 1))))"
      "\<forall>m < k - (i + 1). gfp_mul p (fst (triples ! m)) (fst (snd (triples ! m))) =
         snd (snd (triples ! m))"
      by simp_all
    from ih(1) obtain d where d: "k - i = Suc d" "k - (i + 1) = d"
      by (metis Suc_diff_Suc Suc_eq_plus1 Suc_le_lessD)
    show ?thesis
      using ih False unfolding d
      by (auto simp: nth_Cons split: nat.splits)
  qed
qed

lemma Send_ok:
  "j < length s \<Longrightarrow>
   Send j os s = (Inr (), s[j := (s ! j)\<lparr>outbox := outbox (s ! j) @ [os]\<rparr>])"
  by (simp add: Send_def)

lemma send_all_ok:
  assumes "distinct js" and "\<forall>j \<in> set js. j < length s"
  shows "\<exists>s'. send_all js os s = (Inr (), s') \<and> length s' = length s \<and>
           (\<forall>j < length s. outbox (s' ! j) =
              (if j \<in> set js then outbox (s ! j) @ [os] else outbox (s ! j)))"
  using assms
proof (induction js arbitrary: s)
  case Nil
  then show ?case by simp
next
  case (Cons j js)
  let ?s1 = "s[j := (s ! j)\<lparr>outbox := outbox (s ! j) @ [os]\<rparr>]"
  from Cons.prems have j: "j < length s" "j \<notin> set js" "distinct js" by simp_all
  have "\<forall>j' \<in> set js. j' < length ?s1" using Cons.prems(2) by simp
  from Cons.IH [OF j(3) this]
  obtain s' where s': "send_all js os ?s1 = (Inr (), s')" "length s' = length ?s1"
    "\<forall>j' < length ?s1. outbox (s' ! j') =
        (if j' \<in> set js then outbox (?s1 ! j') @ [os] else outbox (?s1 ! j'))"
    by blast
  have "send_all (j # js) os s = (Inr (), s')"
    using s'(1) j(1) by (simp add: Send_ok)
  moreover have "\<forall>j' < length s. outbox (s' ! j') =
        (if j' \<in> set (j # js) then outbox (s ! j') @ [os] else outbox (s ! j'))"
    using s'(3) j by (auto simp: nth_list_update)
  ultimately show ?case using s'(2) by simp
qed

lemma mask_inputs_eq:
  "length ts = length vs \<Longrightarrow>
   mask_inputs p vs ts os = os @ map (\<lambda>i. gfp_add p (vs ! i) (fst (ts ! i))) [0..<length vs]"
proof (induction p vs ts os rule: mask_inputs.induct)
  case (1 p v vs a b c triples os)
  then have "mask_inputs p (v # vs) ((a, b, c) # triples) os =
             (os @ [gfp_add p v a]) @ map (\<lambda>i. gfp_add p (vs ! i) (fst (triples ! i))) [0..<length vs]"
    by (simp add: pack_def)
  also have "map (\<lambda>i. gfp_add p (vs ! i) (fst (triples ! i))) [0..<length vs] =
             map (\<lambda>i. gfp_add p ((v # vs) ! Suc i) (fst (((a, b, c) # triples) ! Suc i))) [0..<length vs]"
    by simp
  finally show ?case
    by (simp add: map_upt_Suc del: upt_Suc)
qed simp_all

lemma receive_phase:
  assumes "engines_ready sockets n_parties (3 * m)"
  shows "\<exists>s1. receive_triples p [0..<n_parties] (replicate m (0, 0, 0)) sockets =
           (Inr (map (\<lambda>i. (aggregated p sockets n_parties (3 * i),
                           aggregated p sockets n_parties (3 * i + 1),
                           aggregated p sockets n_parties (3 * i + 2))) [0..<m]), s1) \<and>
         length s1 = length sockets \<and> map outbox s1 = map outbox sockets"
proof -
  have pre: "\<forall>j \<in> set [0..<n_parties]. j < length sockets \<and> inbox (sockets ! j) \<noteq> [] \<and>
           3 * length (replicate m (0::int, 0::int, 0::int)) \<le> length (hd (inbox (sockets ! j)))"
    using assms by (auto simp: engines_ready_def list_all_iff)
  have "distinct [0..<n_parties]" by simp
  have eq: "map (\<lambda>i. (acc_shares p sockets [0..<n_parties] (3 * i) (fst (replicate m (0::int, 0::int, 0::int) ! i)),
                      acc_shares p sockets [0..<n_parties] (3 * i + 1) (fst (snd (replicate m (0::int, 0::int, 0::int) ! i))),
                      acc_shares p sockets [0..<n_parties] (3 * i + 2) (snd (snd (replicate m (0::int, 0::int, 0::int) ! i)))))
                [0..<length (replicate m (0::int, 0::int, 0::int))] =
            map (\<lambda>i. (aggregated p sockets n_parties (3 * i),
                      aggregated p sockets n_parties (3 * i + 1),
                      aggregated p sockets n_parties (3 * i + 2))) [0..<m]"
    by (rule nth_equalityI) (simp_all add: aggregated_acc_shares)
  from receive_triples_ok [OF \<open>distinct [0..<n_parties]\<close> pre, of p]
  show ?thesis
    unfolding eq by simp
qed

lemma check_triples_first:
  "check_triples p 0 ts = Some k \<Longrightarrow>
     k < length ts \<and>
     gfp_mul p (fst (ts ! k)) (fst (snd (ts ! k))) \<noteq> snd (snd (ts ! k)) \<and>
     (\<forall>m < k. gfp_mul p (fst (ts ! m)) (fst (snd (ts ! m))) = snd (snd (ts ! m)))"
  using check_triples_Some [of p 0 ts k] by simp

text \<open>
  C1. When every engine delivers its buffer of triple shares, \<open>send_private_inputs\<close>
  holds, for input \<open>i\<close>, the sums over the engines of the shares at the positions
  \<open>3 i\<close>, \<open>3 i + 1\<close> and \<open>3 i + 2\<close>. If the product of the first two sums differs from
  the third for some \<open>i\<close>, the client stops with the message for the first such \<open>i\<close> and
  exit status 1, and nothing has been written to any engine: every \<open>outbox\<close> is as it was.
  If the product equals the third sum for every \<open>i\<close>, the client does not stop.
\<close>

theorem triple_check_abort:
  assumes "engines_ready sockets n_parties (3 * length values)"
  shows "((\<exists>i < length values. \<not> triple_ok p sockets n_parties i) \<longrightarrow>
            (\<exists>i < length values.
               \<not> triple_ok p sockets n_parties i \<and>
               (\<forall>k < i. triple_ok p sockets n_parties k) \<and>
               fst (send_private_inputs p values n_parties sockets) = Inl (Incorrect_Triple i) \<and>
               exit_status (Incorrect_Triple i) = Some 1) \<and>
            map outbox (snd (send_private_inputs p values n_parties sockets)) = map outbox sockets) \<and>
         ((\<forall>i < length values. triple_ok p sockets n_parties i) \<longrightarrow>
            fst (send_private_inputs p values n_parties sockets) = Inr ())"
proof -
  let ?T = "map (\<lambda>i. (aggregated p sockets n_parties (3 * i),
                      aggregated p sockets n_parties (3 * i + 1),
                      aggregated p sockets n_parties (3 * i + 2))) [0..<length values]"
  from receive_phase [OF assms, of p]
  obtain s1 where rcv: "receive_triples p [0..<n_parties] (replicate (length values) (0, 0, 0)) sockets =
           (Inr ?T, s1)"
    and len: "length s1 = length sockets" and out: "map outbox s1 = map outbox sockets"
    by blast
  have ok: "gfp_mul p (fst (?T ! k)) (fst (snd (?T ! k))) = snd (snd (?T ! k)) \<longleftrightarrow>
            triple_ok p sockets n_parties k" if "k < length values" for k
    using that by (simp add: triple_ok_def)
  have bad: ?thesis if "check_triples p 0 ?T = Some i" for i
  proof -
    note c = check_triples_first [OF that]
    from c have i: "i < length values" by simp
    from c have "gfp_mul p (fst (?T ! i)) (fst (snd (?T ! i))) \<noteq> snd (snd (?T ! i))"
      by blast
    with ok [OF i] have nok: "\<not> triple_ok p sockets n_parties i"
      by simp
    have pre: "triple_ok p sockets n_parties m" if "m < i" for m
    proof -
      from that i have m: "m < length values" by simp
      from c that have "gfp_mul p (fst (?T ! m)) (fst (snd (?T ! m))) = snd (snd (?T ! m))"
        by blast
      with ok [OF m] show ?thesis by simp
    qed
    have r: "send_private_inputs p values n_parties sockets = (Inl (Incorrect_Triple i), s1)"
      using rcv that by (simp add: send_private_inputs_def Let_def)
    show ?thesis
      using i nok pre r out by auto
  qed
  have good: ?thesis if "check_triples p 0 ?T = None"
  proof -
    have all: "\<forall>k < length values. triple_ok p sockets n_parties k"
    proof (intro allI impI)
      fix k assume k: "k < length values"
      have "k < length ?T" using k by simp
      with that have "gfp_mul p (fst (?T ! k)) (fst (snd (?T ! k))) = snd (snd (?T ! k))"
        unfolding check_triples_None by blast
      with ok [OF k] show "triple_ok p sockets n_parties k" by simp
    qed
    have js: "distinct [0..<n_parties]" "\<forall>j \<in> set [0..<n_parties]. j < length s1"
      using assms len by (auto simp: engines_ready_def)
    from send_all_ok [OF js, of "mask_inputs p values ?T []"]
    obtain s2 where "send_all [0..<n_parties] (mask_inputs p values ?T []) s1 = (Inr (), s2)"
      by blast
    then have "fst (send_private_inputs p values n_parties sockets) = Inr ()"
      using rcv that by (simp add: send_private_inputs_def Let_def)
    with all show ?thesis by auto
  qed
  show ?thesis
    using bad good by (cases "check_triples p 0 ?T") auto
qed


theorem triple_check_abort_witness:
  "engines_ready [\<lparr>inbox = [[3, 4, 50]], outbox = []\<rparr>, \<lparr>inbox = [[10, 20, 61]], outbox = []\<rparr>] 2 (3 * length [5 :: int]) \<and>
   \<not> triple_ok 101 [\<lparr>inbox = [[3, 4, 50]], outbox = []\<rparr>, \<lparr>inbox = [[10, 20, 61]], outbox = []\<rparr>] 2 0 \<and>
   send_private_inputs 101 [5] 2 [\<lparr>inbox = [[3, 4, 50]], outbox = []\<rparr>, \<lparr>inbox = [[10, 20, 61]], outbox = []\<rparr>] =
     (Inl (Incorrect_Triple 0), [\<lparr>inbox = [], outbox = []\<rparr>, \<lparr>inbox = [], outbox = []\<rparr>]) \<and>
   engines_ready [\<lparr>inbox = [[3, 4, 50]], outbox = []\<rparr>, \<lparr>inbox = [[10, 20, 60]], outbox = []\<rparr>] 2 (3 * length [5 :: int]) \<and>
   triple_ok 101 [\<lparr>inbox = [[3, 4, 50]], outbox = []\<rparr>, \<lparr>inbox = [[10, 20, 60]], outbox = []\<rparr>] 2 0 \<and>
   fst (send_private_inputs 101 [5] 2 [\<lparr>inbox = [[3, 4, 50]], outbox = []\<rparr>, \<lparr>inbox = [[10, 20, 60]], outbox = []\<rparr>]) = Inr ()"
proof -
  let ?bad = "[\<lparr>inbox = [[3, 4, 50]], outbox = []\<rparr>, \<lparr>inbox = [[10, 20, 61 :: int]], outbox = []\<rparr>]"
  let ?good = "[\<lparr>inbox = [[3, 4, 50]], outbox = []\<rparr>, \<lparr>inbox = [[10, 20, 60 :: int]], outbox = []\<rparr>]"
  have two: "[0..<2] = [0, Suc 0]"
    by (simp add: upt_conv_Cons)
  have rb: "engines_ready ?bad 2 (3 * length [5 :: int])"
    and rg: "engines_ready ?good 2 (3 * length [5 :: int])"
    by (simp_all add: engines_ready_def two)
  have nb: "\<not> triple_ok 101 ?bad 2 0" and og: "triple_ok 101 ?good 2 0"
    by (simp_all add: triple_ok_def aggregated_def field_sum_def next_element_def gfp_add_def
          gfp_mul_def two)
  have sb: "send_private_inputs 101 [5] 2 ?bad =
     (Inl (Incorrect_Triple 0), [\<lparr>inbox = [], outbox = []\<rparr>, \<lparr>inbox = [], outbox = []\<rparr>])"
    by (simp add: send_private_inputs_def Receive_def unpack_def gfp_add_def gfp_mul_def two)
  show ?thesis
    using triple_check_abort [OF rb, of 101] triple_check_abort [OF rg, of 101] rb rg nb og sb
    by simp
qed

lemma send_phase:
  assumes "engines_ready sockets n_parties (3 * length values)"
    and "\<forall>i < length values. triple_ok p sockets n_parties i"
  shows "\<exists>s2. send_private_inputs p values n_parties sockets = (Inr (), s2) \<and>
           length s2 = length sockets \<and>
           (\<forall>j < length sockets. outbox (s2 ! j) =
              (if j < n_parties
               then outbox (sockets ! j) @
                      [map (\<lambda>i. gfp_add p (values ! i) (aggregated p sockets n_parties (3 * i)))
                           [0..<length values]]
               else outbox (sockets ! j)))"
proof -
  let ?T = "map (\<lambda>i. (aggregated p sockets n_parties (3 * i),
                      aggregated p sockets n_parties (3 * i + 1),
                      aggregated p sockets n_parties (3 * i + 2))) [0..<length values]"
  let ?ys = "map (\<lambda>i. gfp_add p (values ! i) (aggregated p sockets n_parties (3 * i)))
                 [0..<length values]"
  from receive_phase [OF assms(1), of p]
  obtain s1 where rcv: "receive_triples p [0..<n_parties] (replicate (length values) (0, 0, 0)) sockets =
           (Inr ?T, s1)"
    and len: "length s1 = length sockets" and out: "map outbox s1 = map outbox sockets"
    by blast
  have same: "outbox (s1 ! j) = outbox (sockets ! j)" if "j < length sockets" for j
    using that len out by (metis nth_map)
  have chk: "check_triples p 0 ?T = None"
    unfolding check_triples_None using assms(2) by (simp add: triple_ok_def)
  have "mask_inputs p values ?T [] =
          [] @ map (\<lambda>i. gfp_add p (values ! i) (fst (?T ! i))) [0..<length values]"
    by (rule mask_inputs_eq) simp
  also have "map (\<lambda>i. gfp_add p (values ! i) (fst (?T ! i))) [0..<length values] = ?ys"
    by (rule nth_equalityI) simp_all
  finally have mask: "mask_inputs p values ?T [] = ?ys" by simp
  have js: "distinct [0..<n_parties]" "\<forall>j \<in> set [0..<n_parties]. j < length s1"
    using assms(1) len by (auto simp: engines_ready_def)
  from send_all_ok [OF js, of ?ys]
  obtain s2 where s2: "send_all [0..<n_parties] ?ys s1 = (Inr (), s2)" "length s2 = length s1"
    "\<forall>j < length s1. outbox (s2 ! j) =
        (if j \<in> set [0..<n_parties] then outbox (s1 ! j) @ [?ys] else outbox (s1 ! j))"
    by blast
  have "send_private_inputs p values n_parties sockets = (Inr (), s2)"
    using rcv chk s2(1) mask by (simp add: send_private_inputs_def Let_def)
  moreover have "length s2 = length sockets"
    using len s2(2) by simp
  moreover have "\<forall>j < length sockets. outbox (s2 ! j) =
              (if j < n_parties then outbox (sockets ! j) @ [?ys] else outbox (sockets ! j))"
    using len s2(3) same by simp
  ultimately show ?thesis by blast
qed

lemma unmask: "gfp_sub p (gfp_add p v a) a = v mod p"
  by (simp add: gfp_sub_def gfp_add_def mod_simps)

text \<open>
  C2. When every engine delivers its buffer of triple shares and every aggregated triple
  passes the check, \<open>send_private_inputs\<close> writes one buffer to each of the engines
  \<open>0..n_parties-1\<close> and none to any other connection. The buffer is the same for every
  engine: the values \<open>values[i] + a_i\<close> in the order of the inputs, \<open>a_i\<close> being the
  first component of the aggregated triple. Subtracting \<open>a_i\<close> in the field gives
  \<open>values[i]\<close> back, exactly so when \<open>values[i]\<close> is a field element.
\<close>

theorem masked_inputs_sent:
  assumes "engines_ready sockets n_parties (3 * length values)"
    and "\<forall>i < length values. triple_ok p sockets n_parties i"
  shows "fst (send_private_inputs p values n_parties sockets) = Inr () \<and>
         length (snd (send_private_inputs p values n_parties sockets)) = length sockets \<and>
         (\<forall>j < length sockets.
            outbox (snd (send_private_inputs p values n_parties sockets) ! j) =
              (if j < n_parties
               then outbox (sockets ! j) @
                      [map (\<lambda>i. gfp_add p (values ! i) (aggregated p sockets n_parties (3 * i)))
                           [0..<length values]]
               else outbox (sockets ! j))) \<and>
         (\<forall>i < length values.
            gfp_sub p (gfp_add p (values ! i) (aggregated p sockets n_parties (3 * i)))
                      (aggregated p sockets n_parties (3 * i)) = values ! i mod p \<and>
            (0 \<le> values ! i \<and> values ! i < p \<longrightarrow>
               gfp_sub p (gfp_add p (values ! i) (aggregated p sockets n_parties (3 * i)))
                         (aggregated p sockets n_parties (3 * i)) = values ! i))"
proof -
  from send_phase [OF assms]
  obtain s2 where r: "send_private_inputs p values n_parties sockets = (Inr (), s2)"
    and len: "length s2 = length sockets"
    and out: "\<forall>j < length sockets. outbox (s2 ! j) =
              (if j < n_parties
               then outbox (sockets ! j) @
                      [map (\<lambda>i. gfp_add p (values ! i) (aggregated p sockets n_parties (3 * i)))
                           [0..<length values]]
               else outbox (sockets ! j))"
    by blast
  show ?thesis
    using r len out by (simp add: unmask)
qed

theorem masked_inputs_sent_witness:
  "engines_ready [\<lparr>inbox = [[3, 4, 50]], outbox = []\<rparr>, \<lparr>inbox = [[10, 20, 60]], outbox = []\<rparr>] 2 (3 * length [5 :: int]) \<and>
   triple_ok 101 [\<lparr>inbox = [[3, 4, 50]], outbox = []\<rparr>, \<lparr>inbox = [[10, 20, 60]], outbox = []\<rparr>] 2 0 \<and>
   aggregated 101 [\<lparr>inbox = [[3, 4, 50]], outbox = []\<rparr>, \<lparr>inbox = [[10, 20, 60]], outbox = []\<rparr>] 2 0 = 13 \<and>
   send_private_inputs 101 [5] 2 [\<lparr>inbox = [[3, 4, 50]], outbox = []\<rparr>, \<lparr>inbox = [[10, 20, 60]], outbox = []\<rparr>] =
     (Inr (), [\<lparr>inbox = [], outbox = [[18]]\<rparr>, \<lparr>inbox = [], outbox = [[18]]\<rparr>]) \<and>
   gfp_sub 101 18 13 = 5"
proof -
  let ?good = "[\<lparr>inbox = [[3, 4, 50]], outbox = []\<rparr>, \<lparr>inbox = [[10, 20, 60 :: int]], outbox = []\<rparr>]"
  have two: "[0..<2] = [0, Suc 0]"
    by (simp add: upt_conv_Cons)
  have rg: "engines_ready ?good 2 (3 * length [5 :: int])"
    by (simp add: engines_ready_def two)
  have og: "triple_ok 101 ?good 2 0"
    by (simp add: triple_ok_def aggregated_def field_sum_def next_element_def gfp_add_def
          gfp_mul_def two)
  then have all: "\<forall>i < length [5 :: int]. triple_ok 101 ?good 2 i"
    by simp
  have a: "aggregated 101 ?good 2 0 = 13"
    by (simp add: aggregated_def field_sum_def next_element_def gfp_add_def two)
  have sg: "send_private_inputs 101 [5] 2 ?good =
     (Inr (), [\<lparr>inbox = [], outbox = [[18]]\<rparr>, \<lparr>inbox = [], outbox = [[18]]\<rparr>])"
    by (simp add: send_private_inputs_def Receive_def Send_def unpack_def pack_def gfp_add_def
          gfp_mul_def two)
  show ?thesis
    using masked_inputs_sent [OF rg all] rg og a sg
    by (simp add: gfp_sub_def)
qed

lemma floor_rat_numeral:
  "\<lfloor>numeral a / numeral b :: rat\<rfloor> = numeral a div numeral b"
  by (metis floor_divide_of_int_eq of_int_numeral)

lemma c_round_near: "\<bar>of_int (c_round y) - y\<bar> \<le> 1 / 2"
proof (cases "0 \<le> y")
  case True
  have "of_int \<lfloor>y + 1 / 2\<rfloor> \<le> y + 1 / 2" "y + 1 / 2 < of_int \<lfloor>y + 1 / 2\<rfloor> + 1"
    by linarith+
  moreover have "c_round y = \<lfloor>y + 1 / 2\<rfloor>"
    using True by (simp add: c_round_def)
  ultimately show ?thesis by linarith
next
  case False
  have "of_int \<lfloor>- y + 1 / 2\<rfloor> \<le> - y + 1 / 2" "- y + 1 / 2 < of_int \<lfloor>- y + 1 / 2\<rfloor> + 1"
    by linarith+
  moreover have "of_int (c_round y) = - (of_int \<lfloor>- y + 1 / 2\<rfloor> :: rat)"
    using False by (simp add: c_round_def)
  ultimately show ?thesis by linarith
qed

lemma c_round_bound:
  assumes "\<bar>y\<bar> < of_int m"
  shows "\<bar>c_round y\<bar> \<le> m"
proof -
  have "\<bar>(of_int (c_round y) :: rat)\<bar> \<le> \<bar>y\<bar> + 1 / 2"
    using c_round_near [of y] by linarith
  with assms have "(of_int \<bar>c_round y\<bar> :: rat) < of_int m + 1 / 2"
    by simp
  then have "(of_int \<bar>c_round y\<bar> :: rat) < of_int (m + 1)"
    by simp
  then have "\<bar>c_round y\<bar> < m + 1"
    by (simp only: of_int_less_iff)
  then show ?thesis by simp
qed

lemma to_signed_assign:
  assumes "2 * \<bar>t\<bar> < p"
  shows "to_signed_bigint p (gfp_assign p t) = t"
proof (cases "0 \<le> t")
  case True
  with assms have "t mod p = t" by simp
  moreover have "\<not> (p - 1) div 2 < t" using assms True by linarith
  ultimately show ?thesis by (simp add: to_signed_bigint_def gfp_assign_def)
next
  case False
  have "t mod p = (t + p) mod p" by simp
  also have "\<dots> = t + p" using assms False by (intro mod_pos_pos_trivial) linarith+
  finally have m: "t mod p = t + p" .
  have "(p - 1) div 2 < t + p" using assms False by linarith
  with m show ?thesis by (simp add: to_signed_bigint_def gfp_assign_def)
qed

lemma long_share_ok: "encodable x \<Longrightarrow> long_share x = Inr (c_round (mag x * 2 ^ 8))"
  by (cases x) (simp_all add: encodable_def long_share_def Let_def)

lemma long_share_fault: "\<not> encodable x \<Longrightarrow> long_share x = Inl Int64_Overflow"
  by (cases x) (auto simp: encodable_def long_share_def Let_def)

lemma fixed_point_shares_ok:
  "list_all encodable shares \<Longrightarrow>
   fixed_point_shares shares = Inr (map (\<lambda>x. c_round (mag x * 2 ^ 8)) shares)"
  by (induction shares) (simp_all add: long_share_ok)

lemma fixed_point_shares_fault:
  "\<not> list_all encodable shares \<Longrightarrow> fixed_point_shares shares = Inl Int64_Overflow"
proof (induction shares)
  case Nil
  then show ?case by simp
next
  case (Cons x xs)
  show ?case
  proof (cases "encodable x")
    case True
    with Cons show ?thesis by (simp add: long_share_ok)
  next
    case False
    then show ?thesis by (simp add: long_share_fault)
  qed
qed

lemma get_si_id: "- (2 ^ 63) \<le> x \<Longrightarrow> x < 2 ^ 63 \<Longrightarrow> get_si x = x"
  by (simp add: get_si_def)

lemma long_to_int_id: "- (2 ^ 31) \<le> x \<Longrightarrow> x < 2 ^ 31 \<Longrightarrow> long_to_int x = x"
  by (simp add: long_to_int_def sint_sbintrunc' signed_take_bit_int_eq_self)


text \<open>
  C6. Let the field prime exceed \<open>2^17\<close> (the client loads a prime of 128 bits, line
  523). When every share is a finite float whose rounded product with \<open>2^8\<close> fits
  \<open>int64_t\<close>, \<open>send_private_batch_shares\<close> is \<open>send_private_inputs\<close> on the field
  elements \<open>assign(round(x * 2^8))\<close>; when some share is not, the conversion of line 190
  is not defined, and the function leaves defined behaviour before anything is sent. For
  \<open>|x| < 2^8\<close> the conversion is defined, the rounded product is within 1/2 of
  \<open>x * 2^8\<close>, the signed decoding of the field element is the rounded product again, and
  the decoded value times \<open>2^-8\<close> is within \<open>2^-8\<close> of \<open>x\<close>. The share 3.5 is encoded as
  896 and decoded as 3.5.
\<close>

theorem fixed_point_round_trip:
  assumes "2 ^ 17 < p"
  shows "(list_all encodable shares \<longrightarrow>
            send_private_batch_shares p shares n_parties sockets =
              send_private_inputs p (map (\<lambda>x. gfp_assign p (c_round (mag x * 2 ^ 8))) shares)
                n_parties sockets) \<and>
         (\<not> list_all encodable shares \<longrightarrow>
            send_private_batch_shares p shares n_parties sockets = (Inl Int64_Overflow, sockets)) \<and>
         (\<bar>x\<bar> < 2 ^ 8 \<longrightarrow>
            encodable (Finite x) \<and>
            fixed_point_shares [Finite x] = Inr [c_round (x * 2 ^ 8)] \<and>
            \<bar>of_int (c_round (x * 2 ^ 8)) - x * 2 ^ 8\<bar> \<le> 1 / 2 \<and>
            to_signed_bigint p (gfp_assign p (c_round (x * 2 ^ 8))) = c_round (x * 2 ^ 8) \<and>
            \<bar>of_int (to_signed_bigint p (gfp_assign p (c_round (x * 2 ^ 8)))) * (1 / 2 ^ 8) - x\<bar>
              \<le> 1 / 2 ^ 8) \<and>
         c_round (7 / 2 * 2 ^ 8) = 896 \<and>
         of_int (to_signed_bigint p (gfp_assign p (c_round (7 / 2 * 2 ^ 8)))) * (1 / 2 ^ 8) = (7 / 2 :: rat)"
proof -
  have deleg: "send_private_batch_shares p shares n_parties sockets =
              send_private_inputs p (map (\<lambda>x. gfp_assign p (c_round (mag x * 2 ^ 8))) shares)
                n_parties sockets"
    if "list_all encodable shares"
    using fixed_point_shares_ok [OF that]
    by (simp add: send_private_batch_shares_def o_def)
  have undef: "send_private_batch_shares p shares n_parties sockets = (Inl Int64_Overflow, sockets)"
    if "\<not> list_all encodable shares"
    using fixed_point_shares_fault [OF that]
    by (simp add: send_private_batch_shares_def)
  have small: "\<bar>c_round (x * 2 ^ 8)\<bar> \<le> 2 ^ 16" if "\<bar>x\<bar> < 2 ^ 8"
  proof -
    have "\<bar>x * 2 ^ 8\<bar> = \<bar>x\<bar> * 2 ^ 8" by (simp add: abs_mult)
    also have "\<dots> < 2 ^ 8 * 2 ^ 8" using that by simp
    finally have "\<bar>x * 2 ^ 8\<bar> < of_int (2 ^ 16)" by simp
    then show ?thesis by (rule c_round_bound)
  qed
  have trip: "encodable (Finite x) \<and>
            fixed_point_shares [Finite x] = Inr [c_round (x * 2 ^ 8)] \<and>
            \<bar>of_int (c_round (x * 2 ^ 8)) - x * 2 ^ 8\<bar> \<le> 1 / 2 \<and>
            to_signed_bigint p (gfp_assign p (c_round (x * 2 ^ 8))) = c_round (x * 2 ^ 8) \<and>
            \<bar>of_int (to_signed_bigint p (gfp_assign p (c_round (x * 2 ^ 8)))) * (1 / 2 ^ 8) - x\<bar>
              \<le> 1 / 2 ^ 8"
    if "\<bar>x\<bar> < 2 ^ 8"
  proof -
    let ?t = "c_round (x * 2 ^ 8)"
    from small [OF that] have t: "- (2 ^ 16) \<le> ?t" "?t \<le> 2 ^ 16" by linarith+
    then have enc: "encodable (Finite x)"
      by (simp add: encodable_def)
    then have r: "fixed_point_shares [Finite x] = Inr [?t]"
      by (simp add: long_share_ok)
    have n: "\<bar>of_int ?t - x * 2 ^ 8\<bar> \<le> 1 / 2"
      by (rule c_round_near)
    have "(2 :: int) * 2 ^ 16 = 2 ^ 17" by simp
    then have "2 * \<bar>?t\<bar> < p" using small [OF that] assms by linarith
    then have d: "to_signed_bigint p (gfp_assign p ?t) = ?t"
      by (rule to_signed_assign)
    have "of_int ?t * (1 / 2 ^ 8) - x = (of_int ?t - x * 2 ^ 8) * (1 / 2 ^ 8)"
      by (simp add: field_simps)
    then have "\<bar>of_int ?t * (1 / 2 ^ 8) - x\<bar> = \<bar>of_int ?t - x * 2 ^ 8\<bar> * (1 / 2 ^ 8)"
      by (simp only: abs_mult) simp
    also have "\<dots> \<le> 1 / 2 * (1 / 2 ^ 8)"
      using n by (intro mult_right_mono) simp_all
    finally have "\<bar>of_int ?t * (1 / 2 ^ 8) - x\<bar> \<le> 1 / 2 ^ 8" by simp
    with enc r n d show ?thesis by simp
  qed
  have e: "c_round (7 / 2 * 2 ^ 8) = 896"
    by (simp add: c_round_def floor_rat_numeral)
  have "2 * \<bar>896 :: int\<bar> < p" using assms by simp
  then have "to_signed_bigint p (gfp_assign p 896) = 896"
    by (rule to_signed_assign)
  with e have "of_int (to_signed_bigint p (gfp_assign p (c_round (7 / 2 * 2 ^ 8)))) * (1 / 2 ^ 8) = (7 / 2 :: rat)"
    by simp
  with deleg undef trip e show ?thesis by blast
qed

theorem fixed_point_round_trip_witness:
  "(2 :: int) ^ 17 < 170141183460469231731687303715884105727 \<and>
   list_all encodable [Finite (7 / 2), Finite (- 3 / 2)] \<and>
   send_private_batch_shares 170141183460469231731687303715884105727 [Finite (7 / 2), Finite (- 3 / 2)] 2
       [\<lparr>inbox = [[3, 4, 50, 1, 1, 0]], outbox = []\<rparr>,
        \<lparr>inbox = [[10, 20, 262, 1, 1, 4]], outbox = []\<rparr>] =
     (Inr (), [\<lparr>inbox = [], outbox = [[909, 170141183460469231731687303715884105345]]\<rparr>,
               \<lparr>inbox = [], outbox = [[909, 170141183460469231731687303715884105345]]\<rparr>]) \<and>
   \<not> list_all encodable [Finite (7 / 2), PInf] \<and>
   send_private_batch_shares 170141183460469231731687303715884105727 [Finite (7 / 2), PInf] 2
       [\<lparr>inbox = [[3, 4, 50, 1, 1, 0]], outbox = []\<rparr>,
        \<lparr>inbox = [[10, 20, 262, 1, 1, 4]], outbox = []\<rparr>] =
     (Inl Int64_Overflow, [\<lparr>inbox = [[3, 4, 50, 1, 1, 0]], outbox = []\<rparr>,
                           \<lparr>inbox = [[10, 20, 262, 1, 1, 4]], outbox = []\<rparr>]) \<and>
   \<bar>- 3 / 2 :: rat\<bar> < 2 ^ 8 \<and>
   c_round (- 3 / 2 * 2 ^ 8) = - 384 \<and>
   gfp_assign 170141183460469231731687303715884105727 (- 384) = 170141183460469231731687303715884105343 \<and>
   to_signed_bigint 170141183460469231731687303715884105727 (gfp_assign 170141183460469231731687303715884105727 (c_round (- 3 / 2 * 2 ^ 8))) = - 384 \<and>
   of_int (to_signed_bigint 170141183460469231731687303715884105727 (gfp_assign 170141183460469231731687303715884105727 (c_round (7 / 2 * 2 ^ 8)))) * (1 / 2 ^ 8) =
     (7 / 2 :: rat)"
proof -
  let ?S = "[\<lparr>inbox = [[3, 4, 50, 1, 1, 0]], outbox = []\<rparr>,
             \<lparr>inbox = [[10, 20, 262, 1, 1, 4 :: int]], outbox = []\<rparr>]"
  have p: "(2 :: int) ^ 17 < 170141183460469231731687303715884105727"
    by simp
  have r: "c_round (- 3 / 2 * 2 ^ 8) = - 384"
    by code_simp
  have enc: "list_all encodable [Finite (7 / 2), Finite (- 3 / 2)]"
    by code_simp
  have nenc: "\<not> list_all encodable [Finite (7 / 2), PInf]"
    by code_simp
  have a: "gfp_assign 170141183460469231731687303715884105727 (- 384) = 170141183460469231731687303715884105343"
    by code_simp
  have x: "\<bar>- 3 / 2 :: rat\<bar> < 2 ^ 8"
    by simp
  note t = fixed_point_round_trip [OF p, where x = "- 3 / 2"]
  have ev: "send_private_inputs 170141183460469231731687303715884105727
          (map (\<lambda>x. gfp_assign 170141183460469231731687303715884105727 (c_round (mag x * 2 ^ 8))) [Finite (7 / 2), Finite (- 3 / 2)])
          2 ?S =
        (Inr (), [\<lparr>inbox = [], outbox = [[909, 170141183460469231731687303715884105345]]\<rparr>,
                  \<lparr>inbox = [], outbox = [[909, 170141183460469231731687303715884105345]]\<rparr>])"
    by code_simp
  have good: "send_private_batch_shares 170141183460469231731687303715884105727 [Finite (7 / 2), Finite (- 3 / 2)] 2 ?S =
        (Inr (), [\<lparr>inbox = [], outbox = [[909, 170141183460469231731687303715884105345]]\<rparr>,
                  \<lparr>inbox = [], outbox = [[909, 170141183460469231731687303715884105345]]\<rparr>])"
    by (rule trans [OF t [where shares = "[Finite (7 / 2), Finite (- 3 / 2)]" and n_parties = 2
          and sockets = ?S, THEN conjunct1, THEN mp, OF enc] ev])
  have bad: "send_private_batch_shares 170141183460469231731687303715884105727 [Finite (7 / 2), PInf] 2 ?S = (Inl Int64_Overflow, ?S)"
    by (rule t [where shares = "[Finite (7 / 2), PInf]" and n_parties = 2 and sockets = ?S,
          THEN conjunct2, THEN conjunct1, THEN mp, OF nenc])
  note u = t [THEN conjunct2, THEN conjunct2, THEN conjunct1, THEN mp, OF x]
  have d: "to_signed_bigint 170141183460469231731687303715884105727 (gfp_assign 170141183460469231731687303715884105727 (c_round (- 3 / 2 * 2 ^ 8))) = - 384"
    by (rule trans [OF u [THEN conjunct2, THEN conjunct2, THEN conjunct2, THEN conjunct1] r])
  have s: "of_int (to_signed_bigint 170141183460469231731687303715884105727 (gfp_assign 170141183460469231731687303715884105727 (c_round (7 / 2 * 2 ^ 8)))) *
      (1 / 2 ^ 8) = (7 / 2 :: rat)"
    by (rule t [THEN conjunct2, THEN conjunct2, THEN conjunct2, THEN conjunct2])
  show ?thesis
    by (intro conjI p enc good nenc bad x r a d s)
qed

text \<open>
  Not every float is encoded and passed on. The float \<open>2^60\<close> has the rounded product
  \<open>2^68\<close>, outside \<open>int64_t\<close>: the conversion of line 190 is not defined, and the
  function leaves defined behaviour before anything is sent, while \<open>send_private_inputs\<close>
  on the field element of \<open>2^68\<close> sends a masked value.
\<close>

theorem fixed_point_overflow_counterexample:
  "c_round (1152921504606846976 * 2 ^ 8) = 295147905179352825856 \<and>
   \<not> encodable (Finite 1152921504606846976) \<and>
   send_private_batch_shares 170141183460469231731687303715884105727 [Finite 1152921504606846976] 2
       [\<lparr>inbox = [[3, 4, 50]], outbox = []\<rparr>, \<lparr>inbox = [[10, 20, 262]], outbox = []\<rparr>] =
     (Inl Int64_Overflow,
      [\<lparr>inbox = [[3, 4, 50]], outbox = []\<rparr>, \<lparr>inbox = [[10, 20, 262]], outbox = []\<rparr>]) \<and>
   send_private_inputs 170141183460469231731687303715884105727 [gfp_assign 170141183460469231731687303715884105727 (c_round (1152921504606846976 * 2 ^ 8))] 2
       [\<lparr>inbox = [[3, 4, 50]], outbox = []\<rparr>, \<lparr>inbox = [[10, 20, 262]], outbox = []\<rparr>] =
     (Inr (), [\<lparr>inbox = [], outbox = [[295147905179352825869]]\<rparr>,
               \<lparr>inbox = [], outbox = [[295147905179352825869]]\<rparr>])"
proof -
  have r: "c_round (1152921504606846976 * 2 ^ 8) = 295147905179352825856"
    by code_simp
  have n: "\<not> encodable (Finite 1152921504606846976)"
    by code_simp
  have b: "send_private_batch_shares 170141183460469231731687303715884105727 [Finite 1152921504606846976] 2
       [\<lparr>inbox = [[3, 4, 50]], outbox = []\<rparr>, \<lparr>inbox = [[10, 20, 262]], outbox = []\<rparr>] =
     (Inl Int64_Overflow,
      [\<lparr>inbox = [[3, 4, 50]], outbox = []\<rparr>, \<lparr>inbox = [[10, 20, 262]], outbox = []\<rparr>])"
    by code_simp
  have s: "send_private_inputs 170141183460469231731687303715884105727 [gfp_assign 170141183460469231731687303715884105727 (c_round (1152921504606846976 * 2 ^ 8))] 2
       [\<lparr>inbox = [[3, 4, 50]], outbox = []\<rparr>, \<lparr>inbox = [[10, 20, 262]], outbox = []\<rparr>] =
     (Inr (), [\<lparr>inbox = [], outbox = [[295147905179352825869]]\<rparr>,
               \<lparr>inbox = [], outbox = [[295147905179352825869]]\<rparr>])"
    by code_simp
  show ?thesis
    by (intro conjI r n b s)
qed

lemma add_values_ok:
  "length vs \<le> length os \<Longrightarrow>
   \<exists>vs'. add_values p os vs = Some vs' \<and> length vs' = length vs \<and>
     (\<forall>i < length vs. vs' ! i = gfp_add p (vs ! i) (os ! i))"
proof (induction p os vs rule: add_values.induct)
  case (1 p os)
  then show ?case by simp
next
  case (2 p os v output_values)
  from "2.prems" obtain x os' where os: "os = x # os'" and len: "length output_values \<le> length os'"
    by (auto simp: Suc_le_length_iff)
  have u: "unpack os = Some (x, os')"
    by (simp add: unpack_def os)
  from "2.IH" [OF u refl len]
  obtain vs' where vs': "add_values p os' output_values = Some vs'" "length vs' = length output_values"
    and nth: "\<forall>i < length output_values. vs' ! i = gfp_add p (output_values ! i) (os' ! i)"
    by blast
  have "add_values p os (v # output_values) = Some (gfp_add p v x # vs')"
    using u vs'(1) by simp
  moreover have "\<forall>i < length (v # output_values).
      (gfp_add p v x # vs') ! i = gfp_add p ((v # output_values) ! i) (os ! i)"
    using nth by (auto simp: os nth_Cons split: nat.splits)
  ultimately show ?case using vs'(2) by simp
qed

lemma receive_values_ok:
  assumes "distinct js"
    and "\<forall>j \<in> set js. j < length s \<and> inbox (s ! j) \<noteq> [] \<and>
           length vs \<le> length (hd (inbox (s ! j)))"
  shows "\<exists>s'. receive_values p js vs s =
           (Inr (map (\<lambda>i. acc_shares p s js i (vs ! i)) [0..<length vs]), s') \<and>
         length s' = length s \<and> map outbox s' = map outbox s"
  using assms
proof (induction js arbitrary: vs s)
  case Nil
  have "map (\<lambda>i. vs ! i) [0..<length vs] = vs"
    by (rule map_nth)
  then show ?case by (simp add: acc_shares_def)
next
  case (Cons j js)
  let ?os = "hd (inbox (s ! j))"
  let ?s1 = "s[j := (s ! j)\<lparr>inbox := tl (inbox (s ! j))\<rparr>]"
  from Cons.prems have j: "j < length s" "inbox (s ! j) \<noteq> []" "length vs \<le> length ?os"
    by simp_all
  have rcv: "Receive j s = (Inr ?os, ?s1)"
    using j(1,2) by (rule Receive_ok)
  from add_values_ok [OF j(3), of p]
  obtain vs1 where vs1: "add_values p ?os vs = Some vs1" "length vs1 = length vs"
    and nth: "\<forall>i < length vs. vs1 ! i = gfp_add p (vs ! i) (?os ! i)"
    by blast
  have same: "inbox (?s1 ! j') = inbox (s ! j')" if "j' \<in> set js" for j'
    using that Cons.prems(1) by (cases "j' = j") auto
  have pre: "\<forall>j' \<in> set js. j' < length ?s1 \<and> inbox (?s1 ! j') \<noteq> [] \<and>
               length vs1 \<le> length (hd (inbox (?s1 ! j')))"
    using Cons.prems(2) same vs1(2) by simp
  from Cons.prems(1) have "distinct js" by simp
  from Cons.IH [OF this pre]
  obtain s' where s': "receive_values p js vs1 ?s1 =
           (Inr (map (\<lambda>i. acc_shares p ?s1 js i (vs1 ! i)) [0..<length vs1]), s')"
    and len: "length s' = length ?s1" and out: "map outbox s' = map outbox ?s1"
    by blast
  have eq: "map (\<lambda>i. acc_shares p ?s1 js i (vs1 ! i)) [0..<length vs1] =
            map (\<lambda>i. acc_shares p s (j # js) i (vs ! i)) [0..<length vs]"
    using nth vs1(2) same
    by (intro nth_equalityI)
       (simp_all add: acc_shares_Cons acc_shares_cong [of js ?s1 s] next_element_def)
  have "receive_values p (j # js) vs s = receive_values p js vs1 ?s1"
    using rcv vs1(1) by simp
  with s' eq len out show ?case
    by (simp add: outbox_after_Receive)
qed

lemma receive_values_phase:
  assumes "engines_ready sockets n_parties m"
  shows "\<exists>s1. receive_values p [0..<n_parties] (replicate m 0) sockets =
           (Inr (map (aggregated p sockets n_parties) [0..<m]), s1) \<and>
         length s1 = length sockets \<and> map outbox s1 = map outbox sockets"
proof -
  have pre: "\<forall>j \<in> set [0..<n_parties]. j < length sockets \<and> inbox (sockets ! j) \<noteq> [] \<and>
           length (replicate m (0::int)) \<le> length (hd (inbox (sockets ! j)))"
    using assms by (auto simp: engines_ready_def list_all_iff)
  have eq: "map (\<lambda>i. acc_shares p sockets [0..<n_parties] i (replicate m (0::int) ! i))
                [0..<length (replicate m (0::int))] =
            map (aggregated p sockets n_parties) [0..<m]"
    by (rule nth_equalityI) (simp_all add: aggregated_acc_shares)
  from receive_values_ok [OF distinct_upt pre, of p]
  show ?thesis
    unfolding eq by simp
qed

lemma field_sum_sum_list: "field_sum p xs = sum_list xs mod p"
proof -
  have "fold (\<lambda>x acc. gfp_add p acc x) xs a = (a + sum_list xs) mod p" if "a mod p = a" for a
    using that
  proof (induction xs arbitrary: a)
    case Nil
    then show ?case by simp
  next
    case (Cons x xs)
    have "gfp_add p a x mod p = gfp_add p a x"
      by (simp add: gfp_add_def)
    from Cons.IH [OF this] show ?case
      by (simp add: gfp_add_def mod_simps add.assoc)
  qed
  from this [of 0] show ?thesis
    by (simp add: field_sum_def)
qed

text \<open>
  C9. Let every engine \<open>0..n_parties-1\<close> deliver a buffer of at least \<open>k\<close> elements,
  \<open>k \<ge> 1\<close>. Then \<open>receive_result\<close> holds in \<open>output_values[j]\<close> the sum in the field
  of the \<open>j\<close>-th elements of the engines' buffers, writes nothing, and returns \<open>k - 1\<close>
  floats and an index. Entry \<open>i\<close> is the signed decoding of \<open>output_values[i]\<close>, taken
  as a 64-bit integer, converted to \<open>double\<close>, multiplied by \<open>2^-8\<close> and converted to
  \<open>float\<close>; it equals the signed decoding times \<open>2^-8\<close> when the decoding fits 64 bits
  and the two conversions are exact on it. The index is the signed decoding of
  \<open>output_values[k-1]\<close> reduced to a 32-bit \<open>int\<close>; it equals the signed decoding when
  that lies between \<open>-2^31\<close> and \<open>2^31 - 1\<close>.
\<close>

theorem receive_result_decodes:
  assumes "engines_ready sockets n_parties (nat k)" and "1 \<le> k"
  shows "fst (receive_result to_double to_float p n_parties k sockets) =
           Inr (map (\<lambda>i. to_float (to_double (of_int (get_si (to_signed_bigint p
                            (aggregated p sockets n_parties i)))) * (1 / 2 ^ 8)))
                    [0..<nat (k - 1)],
                long_to_int (get_si (to_signed_bigint p
                  (aggregated p sockets n_parties (nat (k - 1)))))) \<and>
         map outbox (snd (receive_result to_double to_float p n_parties k sockets)) =
           map outbox sockets \<and>
         (\<forall>j. aggregated p sockets n_parties j =
                sum_list (map (\<lambda>i. next_element sockets i j) [0..<n_parties]) mod p) \<and>
         (\<forall>i < nat (k - 1).
            - (2 ^ 63) \<le> to_signed_bigint p (aggregated p sockets n_parties i) \<and>
            to_signed_bigint p (aggregated p sockets n_parties i) < 2 ^ 63 \<and>
            to_double (of_int (to_signed_bigint p (aggregated p sockets n_parties i))) =
              of_int (to_signed_bigint p (aggregated p sockets n_parties i)) \<and>
            to_float (of_int (to_signed_bigint p (aggregated p sockets n_parties i)) * (1 / 2 ^ 8)) =
              of_int (to_signed_bigint p (aggregated p sockets n_parties i)) * (1 / 2 ^ 8) \<longrightarrow>
            to_float (to_double (of_int (get_si (to_signed_bigint p
                (aggregated p sockets n_parties i)))) * (1 / 2 ^ 8)) =
              of_int (to_signed_bigint p (aggregated p sockets n_parties i)) * (1 / 2 ^ 8)) \<and>
         (- (2 ^ 31) \<le> to_signed_bigint p (aggregated p sockets n_parties (nat (k - 1))) \<and>
          to_signed_bigint p (aggregated p sockets n_parties (nat (k - 1))) < 2 ^ 31 \<longrightarrow>
            long_to_int (get_si (to_signed_bigint p (aggregated p sockets n_parties (nat (k - 1))))) =
              to_signed_bigint p (aggregated p sockets n_parties (nat (k - 1))))"
proof -
  from receive_values_phase [OF assms(1), of p]
  obtain s1 where rcv: "receive_values p [0..<n_parties] (replicate (nat k) 0) sockets =
           (Inr (map (aggregated p sockets n_parties) [0..<nat k]), s1)"
    and out: "map outbox s1 = map outbox sockets"
    by blast
  have idx: "map (aggregated p sockets n_parties) [0..<nat k] ! i = aggregated p sockets n_parties i"
    if "i < nat k" for i
    using that by simp
  have last: "nat (k - 1) < nat k" and lt: "\<And>i. i < nat (k - 1) \<Longrightarrow> i < nat k"
    using assms(2) by simp_all
  have res: "receive_result to_double to_float p n_parties k sockets =
           (Inr (map (\<lambda>i. to_float (to_double (of_int (get_si (to_signed_bigint p
                            (aggregated p sockets n_parties i)))) * (1 / 2 ^ 8)))
                    [0..<nat (k - 1)],
                long_to_int (get_si (to_signed_bigint p
                  (aggregated p sockets n_parties (nat (k - 1)))))), s1)"
    using assms(2) rcv idx [OF last] lt
    by (simp add: receive_result_def Let_def idx cong: map_cong)
  have exact: "long_to_int (get_si x) = x" if "- (2 ^ 31) \<le> x" "x < 2 ^ 31" for x
  proof -
    have "get_si x = x" using that by (intro get_si_id) simp_all
    with that show ?thesis by (simp add: long_to_int_id)
  qed
  show ?thesis
    using res out exact
    by (simp add: get_si_id aggregated_def field_sum_sum_list)
qed


theorem receive_result_decodes_witness:
  "engines_ready [\<lparr>inbox = [[500, 3]], outbox = []\<rparr>,
                  \<lparr>inbox = [[396, 170141183460469231731687303715884105727 - 5]], outbox = []\<rparr>] 2 (nat 2) \<and>
   aggregated 170141183460469231731687303715884105727 [\<lparr>inbox = [[500, 3]], outbox = []\<rparr>,
                  \<lparr>inbox = [[396, 170141183460469231731687303715884105727 - 5]], outbox = []\<rparr>] 2 0 = 896 \<and>
   aggregated 170141183460469231731687303715884105727 [\<lparr>inbox = [[500, 3]], outbox = []\<rparr>,
                  \<lparr>inbox = [[396, 170141183460469231731687303715884105727 - 5]], outbox = []\<rparr>] 2 1 = 170141183460469231731687303715884105727 - 2 \<and>
   to_signed_bigint 170141183460469231731687303715884105727 (170141183460469231731687303715884105727 - 2) = - 2 \<and>
   receive_result (\<lambda>x. x) (\<lambda>x. x) 170141183460469231731687303715884105727 2 2
       [\<lparr>inbox = [[500, 3]], outbox = []\<rparr>, \<lparr>inbox = [[396, 170141183460469231731687303715884105727 - 5]], outbox = []\<rparr>] =
     (Inr ([7 / 2], - 2), [\<lparr>inbox = [], outbox = []\<rparr>, \<lparr>inbox = [], outbox = []\<rparr>])"
proof -
  let ?S = "[\<lparr>inbox = [[500, 3]], outbox = []\<rparr>,
             \<lparr>inbox = [[396, 170141183460469231731687303715884105727 - 5 :: int]], outbox = []\<rparr>]"
  have two: "[0..<2] = [0, Suc 0]"
    by (simp add: upt_conv_Cons)
  have r: "engines_ready ?S 2 (nat 2)"
    by (simp add: engines_ready_def two)
  have k: "(1 :: int) \<le> 2"
    by simp
  have a: "aggregated 170141183460469231731687303715884105727 ?S 2 0 = 896" "aggregated 170141183460469231731687303715884105727 ?S 2 1 = 170141183460469231731687303715884105727 - 2"
    by (simp_all add: aggregated_def field_sum_def next_element_def gfp_add_def two)
  have d: "to_signed_bigint 170141183460469231731687303715884105727 (170141183460469231731687303715884105727 - 2) = - 2"
    by (simp add: to_signed_bigint_def)
  have e: "receive_result (\<lambda>x. x) (\<lambda>x. x) 170141183460469231731687303715884105727 2 2 ?S =
     (Inr ([7 / 2], - 2), [\<lparr>inbox = [], outbox = []\<rparr>, \<lparr>inbox = [], outbox = []\<rparr>])"
    by (simp add: receive_result_def Receive_def unpack_def gfp_add_def to_signed_bigint_def
          get_si_def long_to_int_def numeral_2_eq_2)
  show ?thesis
    using receive_result_decodes [OF r k, of "\<lambda>x. x" "\<lambda>x. x" 170141183460469231731687303715884105727] r a d e
    by simp
qed

text \<open>
  Neither holds without the range conditions. When the shares of position 0 add up to
  \<open>2^70\<close> and those of the last position to \<open>2^40\<close>, the signed decodings are
  \<open>2^70\<close> and \<open>2^40\<close>, while the float returned is 0, even with exact conversions
  to \<open>double\<close> and \<open>float\<close>, and \<open>best_split_index\<close> is 0.
\<close>

theorem receive_result_index_counterexample:
  "engines_ready [\<lparr>inbox = [[1180591620717411303420, 1099511627771]], outbox = []\<rparr>,
                  \<lparr>inbox = [[4, 5]], outbox = []\<rparr>] 2 (nat 2) \<and>
   to_signed_bigint 170141183460469231731687303715884105727
     (aggregated 170141183460469231731687303715884105727 [\<lparr>inbox = [[1180591620717411303420, 1099511627771]], outbox = []\<rparr>,
                      \<lparr>inbox = [[4, 5]], outbox = []\<rparr>] 2 0) = 1180591620717411303424 \<and>
   to_signed_bigint 170141183460469231731687303715884105727
     (aggregated 170141183460469231731687303715884105727 [\<lparr>inbox = [[1180591620717411303420, 1099511627771]], outbox = []\<rparr>,
                      \<lparr>inbox = [[4, 5]], outbox = []\<rparr>] 2 1) = 1099511627776 \<and>
   fst (receive_result (\<lambda>x. x) (\<lambda>x. x) 170141183460469231731687303715884105727 2 2
       [\<lparr>inbox = [[1180591620717411303420, 1099511627771]], outbox = []\<rparr>,
        \<lparr>inbox = [[4, 5]], outbox = []\<rparr>]) =
     Inr ([0], 0)"
  by (simp add: engines_ready_def aggregated_def field_sum_def next_element_def
        receive_result_def Receive_def unpack_def gfp_add_def to_signed_bigint_def
        get_si_def long_to_int_def numeral_2_eq_2)

subsection \<open>The quantile split engine\<close>

lemma sort_indexes_mset: "sort_indexes v idx \<Longrightarrow> mset idx = mset [0..<length v]"
  unfolding sort_indexes_def std_sort_post_def by blast

lemma sort_indexes_sorted:
  "sort_indexes v idx \<Longrightarrow> sorted_wrt (\<lambda>a b. \<not> flt (v ! b) (v ! a)) idx"
  unfolding sort_indexes_def std_sort_post_def by blast

lemma sort_indexes_length: "sort_indexes v idx \<Longrightarrow> length idx = length v"
  using mset_eq_length [OF sort_indexes_mset] by fastforce

lemma sort_indexes_set: "sort_indexes v idx \<Longrightarrow> set idx = {0..<length v}"
  using mset_eq_setD [OF sort_indexes_mset] by fastforce

lemma sort_indexes_nth:
  assumes "sort_indexes v idx" and "k < length v"
  shows "idx ! k < length v"
proof -
  have "k < length idx" using assms by (simp add: sort_indexes_length)
  then have "idx ! k \<in> set idx" by simp
  then show ?thesis using assms(1) by (simp add: sort_indexes_set)
qed

lemma sort_indexes_map_mset:
  assumes "sort_indexes v idx"
  shows "mset (map ((!) v) idx) = mset v"
proof -
  have "mset (map ((!) v) idx) = image_mset ((!) v) (mset [0..<length v])"
    using sort_indexes_mset [OF assms] by (metis mset_map)
  also have "\<dots> = mset (map ((!) v) [0..<length v])" by simp
  also have "\<dots> = mset v" by (simp add: map_nth)
  finally show ?thesis .
qed

lemma sort_indexes_map_set: "sort_indexes v idx \<Longrightarrow> set (map ((!) v) idx) = set v"
  using mset_eq_setD [OF sort_indexes_map_mset] by fastforce

lemma distinct_remdups_adj_sorted: "sorted xs \<Longrightarrow> distinct (remdups_adj xs)"
  by (induction xs rule: remdups_adj.induct) auto

lemma sort_indexes_values:
  assumes "sort_indexes v idx" and "NaN \<notin> set v"
  shows "map ((!) v) idx = sort v"
proof -
  have r: "v ! a \<le> v ! b" if "a \<in> set idx" "b \<in> set idx" "\<not> flt (v ! b) (v ! a)" for a b
  proof -
    from that(1,2) have "a < length v" "b < length v"
      using assms(1) by (simp_all add: sort_indexes_set)
    then have "v ! a \<in> set v" "v ! b \<in> set v" by simp_all
    with assms(2) have "v ! a \<noteq> NaN" "v ! b \<noteq> NaN" by metis+
    with that(3) show ?thesis by (simp add: not_flt_le)
  qed
  have "sorted_wrt (\<lambda>a b. v ! a \<le> v ! b) idx"
    by (rule sorted_wrt_mono_rel [OF _ sort_indexes_sorted [OF assms(1)]]) (rule r)
  then have "sorted (map ((!) v) idx)"
    by (simp add: sorted_wrt_map)
  with sort_indexes_map_mset [OF assms(1)] show ?thesis
    by (metis properties_for_sort)
qed

lemma sorted_value_nth:
  assumes "sort_indexes v idx" and "k < length v"
  shows "sorted_value v idx k = Inr (v ! (idx ! k))"
  using assms sort_indexes_nth [OF assms]
  by (simp add: sorted_value_def at_index_def sort_indexes_length)

lemma sorted_value_out:
  assumes "sort_indexes v idx" and "length v \<le> k"
  shows "sorted_value v idx k = Inl Index_Out_Of_Range"
  using assms by (simp add: sorted_value_def at_index_def sort_indexes_length)

lemma sorted_value_sort:
  assumes "sort_indexes v idx" and "NaN \<notin> set v" and "k < length v"
  shows "v ! (idx ! k) = sort v ! k"
proof -
  have k: "k < length idx" using assms by (simp add: sort_indexes_length)
  have "sort v ! k = map ((!) v) idx ! k"
    using assms(1,2) by (simp add: sort_indexes_values)
  also have "\<dots> = v ! (idx ! k)" using k by simp
  finally show ?thesis by simp
qed

lemma distinct_loop_fold:
  assumes "sort_indexes v idx" and "\<forall>i \<in> set is. i < length v"
  shows "distinct_loop v idx is dv =
           Inr (foldl push_distinct dv (map (\<lambda>i. v ! (idx ! i)) is))"
  using assms(2)
proof (induction "is" arbitrary: dv)
  case Nil
  then show ?case by simp
next
  case (Cons i "is")
  from Cons.prems have i: "i < length v" and rest: "\<forall>i \<in> set is. i < length v"
    by simp_all
  from sorted_value_nth [OF assms(1) i] Cons.IH [OF rest]
  show ?case by simp
qed

lemma compute_distinct_values_fold:
  assumes "sort_indexes v idx"
  shows "compute_distinct_values v idx = Inr (foldl push_distinct [] (map ((!) v) idx))"
proof -
  have "map (\<lambda>i. v ! (idx ! i)) [0..<length idx] = map ((!) v) (map ((!) idx) [0..<length idx])"
    by simp
  also have "\<dots> = map ((!) v) idx"
    by (simp only: map_nth)
  finally have "map (\<lambda>i. v ! (idx ! i)) [0..<length v] = map ((!) v) idx"
    using assms by (simp add: sort_indexes_length)
  then show ?thesis
    using distinct_loop_fold [OF assms, of "[0..<length v]" "[]"]
    by (simp add: compute_distinct_values_def)
qed

lemma push_distinct_set: "set (push_distinct dv x) = insert x (set dv)"
proof (cases "dv = []")
  case True
  then show ?thesis by (simp add: push_distinct_def)
next
  case False
  then have "dv ! (length dv - 1) \<in> set dv" by simp
  then have "feq (dv ! (length dv - 1)) x \<Longrightarrow> x \<in> set dv"
    using feq_imp_eq by metis
  then show ?thesis by (auto simp: push_distinct_def)
qed

lemma foldl_push_distinct_set: "set (foldl push_distinct dv xs) = set dv \<union> set xs"
  by (induction xs arbitrary: dv) (simp_all add: push_distinct_set)

lemma distinct_count_ge:
  assumes "sort_indexes v idx"
  shows "\<exists>dv. compute_distinct_values v idx = Inr dv \<and> card (set v) \<le> length dv"
proof -
  let ?dv = "foldl push_distinct [] (map ((!) v) idx)"
  have "set ?dv = set v"
    using sort_indexes_map_set [OF assms] by (simp only: foldl_push_distinct_set) simp
  then have "card (set v) \<le> length ?dv"
    using card_length [of ?dv] by simp
  with compute_distinct_values_fold [OF assms] show ?thesis by simp
qed

lemma foldl_push_distinct_remdups:
  assumes "NaN \<notin> set dv" and "NaN \<notin> set xs"
  shows "foldl push_distinct dv xs =
           (if dv = [] then remdups_adj xs else butlast dv @ remdups_adj (last dv # xs))"
  using assms
proof (induction xs arbitrary: dv)
  case Nil
  then show ?case by simp
next
  case (Cons x xs)
  from Cons.prems have x: "x \<noteq> NaN" and xs: "NaN \<notin> set xs"
    by auto
  show ?case
  proof (cases "dv = []")
    case True
    then have "push_distinct dv x = [x]" by (simp add: push_distinct_def)
    then show ?thesis
      using True x xs Cons.IH [of "[x]"] by simp
  next
    case False
    then have l: "dv ! (length dv - 1) = last dv"
      by (simp add: last_conv_nth)
    from False Cons.prems(1) have "last dv \<noteq> NaN"
      using last_in_set by metis
    then have e: "feq (last dv) x \<longleftrightarrow> last dv = x"
      by (rule feq_eq)
    show ?thesis
    proof (cases "last dv = x")
      case True
      then have "push_distinct dv x = dv"
        using False l e by (simp add: push_distinct_def)
      then show ?thesis
        using True False xs Cons.prems(1) Cons.IH [of dv] by simp
    next
      case neq: False
      then have p: "push_distinct dv x = dv @ [x]"
        using False l e by (simp add: push_distinct_def)
      have "butlast dv @ [last dv] = dv" using False by simp
      then have "butlast dv @ last dv # ys = dv @ ys" for ys
        by (metis append_Cons append_Nil append_assoc)
      then show ?thesis
        using False neq x xs Cons.prems(1) p Cons.IH [of "dv @ [x]"] by simp
    qed
  qed
qed

lemma compute_distinct_values_eq:
  assumes "sort_indexes v idx" and "NaN \<notin> set v"
  shows "compute_distinct_values v idx = Inr (remdups_adj (sort v))"
proof -
  have "NaN \<notin> set (sort v)" using assms(2) by simp
  then have "foldl push_distinct [] (sort v) = remdups_adj (sort v)"
    using foldl_push_distinct_remdups [of "[]" "sort v"] by simp
  then show ?thesis
    using compute_distinct_values_fold [OF assms(1)] sort_indexes_values [OF assms]
    by simp
qed

lemma distinct_values_sorted_list: "remdups_adj (sort v) = sorted_list_of_set (set v)"
proof -
  have "sorted (remdups_adj (sort v))" "distinct (remdups_adj (sort v))"
    "set (remdups_adj (sort v)) = set v"
    by (simp_all add: distinct_remdups_adj_sorted)
  then show ?thesis
    by (metis sorted_list_of_set.idem_if_sorted_distinct)
qed

lemma distinct_values_count: "length (remdups_adj (sort v)) = card (set v)"
  by (simp add: distinct_values_sorted_list)

lemma categorical_slots:
  assumes "1 \<le> length dv" and "length dv \<le> 8"
  shows "map (\<lambda>i. if i \<le> length dv - 1 then dv ! i else Finite (- 1)) [0..<8] =
           dv @ replicate (8 - length dv) (Finite (- 1))"
  using assms by (intro nth_equalityI) (auto simp: nth_append)

lemma split_values_loop_ok:
  assumes "sort_indexes v idx" and "\<forall>i \<in> set is. (i + 1) * bs + 1 < length v"
  shows "split_values_loop to_float v idx bs is =
           Inr (map (\<lambda>i. float_average to_float (v ! (idx ! ((i + 1) * bs)))
                                                  (v ! (idx ! ((i + 1) * bs + 1)))) is)"
  using assms(2)
proof (induction "is")
  case Nil
  then show ?case by simp
next
  case (Cons i "is")
  from Cons.prems have i: "(i + 1) * bs < length v" "(i + 1) * bs + 1 < length v"
    by simp_all
  from Cons.prems have "\<forall>i \<in> set is. (i + 1) * bs + 1 < length v"
    by simp
  from Cons.IH [OF this] sorted_value_nth [OF assms(1) i(1)] sorted_value_nth [OF assms(1) i(2)]
  show ?case by simp
qed

lemma split_values_loop_fault:
  assumes "sort_indexes v idx" and "\<exists>i \<in> set is. length v \<le> (i + 1) * bs + 1"
  shows "split_values_loop to_float v idx bs is = Inl Index_Out_Of_Range"
  using assms(2)
proof (induction "is")
  case Nil
  then show ?case by simp
next
  case (Cons i "is")
  show ?case
  proof (cases "(i + 1) * bs + 1 < length v")
    case True
    then have a: "(i + 1) * bs < length v" by simp
    from True Cons.prems have "\<exists>i \<in> set is. length v \<le> (i + 1) * bs + 1"
      by auto
    from Cons.IH [OF this] sorted_value_nth [OF assms(1) a] sorted_value_nth [OF assms(1) True]
    show ?thesis by simp
  next
    case False
    then have b: "sorted_value v idx ((i + 1) * bs + 1) = Inl Index_Out_Of_Range"
      using assms(1) by (intro sorted_value_out) simp_all
    show ?thesis
    proof (cases "(i + 1) * bs < length v")
      case True
      from sorted_value_nth [OF assms(1) True] b show ?thesis by simp
    next
      case False
      then have "sorted_value v idx ((i + 1) * bs) = Inl Index_Out_Of_Range"
        using assms(1) by (intro sorted_value_out) simp_all
      then show ?thesis by simp
    qed
  qed
qed

lemma bin_positions_in_range:
  assumes "10 \<le> n" and "i < 8"
  shows "(i + 1) * (n div 9) + 1 < (n :: nat)"
proof -
  have "(i + 1) * (n div 9) \<le> 8 * (n div 9)"
    using assms(2) by (intro mult_right_mono) simp_all
  moreover have "8 * (n div 9) + 1 < n"
    using assms(1) by linarith
  ultimately show ?thesis by linarith
qed

lemma le_PInf: "a \<noteq> NaN \<Longrightarrow> a \<le> PInf"
  by (cases a) (simp_all add: less_eq_cfloat_def)

lemma MInf_le: "MInf \<le> a"
  by (cases a) (simp_all add: less_eq_cfloat_def)

lemma le_not_NaN: "a \<le> b \<Longrightarrow> b \<noteq> NaN \<Longrightarrow> a \<noteq> NaN"
  by (cases a; cases b) (simp_all add: less_eq_cfloat_def)

lemma cfloat_le_simps:
  "\<not> Finite x \<le> MInf" "\<not> PInf \<le> Finite x" "\<not> PInf \<le> MInf"
  "\<not> NaN \<le> Finite x" "\<not> NaN \<le> PInf" "\<not> NaN \<le> MInf"
  by (simp_all add: less_eq_cfloat_def)

lemma fadd_mono:
  assumes "mono to_float" and "\<And>x. to_float x \<noteq> NaN"
    and "a \<le> a'" and "b \<le> b'" and "a' \<noteq> NaN" and "b' \<noteq> NaN"
    and "MInf \<notin> {a, b, a', b'} \<or> PInf \<notin> {a, b, a', b'}"
  shows "fadd to_float a b \<le> fadd to_float a' b' \<and> fadd to_float a' b' \<noteq> NaN"
proof -
  have ff: "to_float (x + y) \<le> to_float (x' + y')" if "x \<le> x'" "y \<le> y'" for x y x' y' :: rat
    using that by (intro monoD [OF assms(1)] add_mono)
  note [simp] = le_PInf MInf_le assms(2)
  from assms(3-7) show ?thesis
    by (cases a; cases b; cases a'; cases b') (simp_all add: ff cfloat_le_simps)
qed

lemma fhalf_mono:
  assumes "mono to_float" and "\<And>x. to_float x \<noteq> NaN" and "a \<le> b" and "b \<noteq> NaN"
  shows "fhalf to_float a \<le> fhalf to_float b \<and> fhalf to_float b \<noteq> NaN"
proof -
  have hh: "to_float (x / 2) \<le> to_float (y / 2)" if "x \<le> y" for x y :: rat
    using that by (intro monoD [OF assms(1)]) simp
  note [simp] = le_PInf MInf_le assms(2)
  from assms(3,4) show ?thesis
    by (cases a; cases b) (simp_all add: hh cfloat_le_simps)
qed

lemma float_average_mono:
  assumes "mono to_float" and "\<And>x. to_float x \<noteq> NaN"
    and "a \<le> a'" and "b \<le> b'" and "a' \<noteq> NaN" and "b' \<noteq> NaN"
    and "MInf \<notin> {a, b, a', b'} \<or> PInf \<notin> {a, b, a', b'}"
  shows "fle (float_average to_float a b) (float_average to_float a' b')"
proof -
  note s = fadd_mono [OF assms]
  note h = fhalf_mono [OF assms(1,2) conjunct1 [OF s] conjunct2 [OF s]]
  from h have "float_average to_float a' b' \<noteq> NaN"
    "float_average to_float a b \<le> float_average to_float a' b'"
    by (simp_all add: float_average_def)
  then show ?thesis
    by (auto simp: fle_def dest: le_not_NaN)
qed

text \<open>
  C7. Let \<open>sorted_indexes\<close> be a vector that \<open>sort_indexes\<close> may return for the
  feature column, and let no value of the column be NaN. When the column has between 2
  and 8 distinct values, \<open>compute_splits\<close> returns the number of distinct values minus
  one, the distinct values in ascending order and \<open>-1\<close> in the slots that remain, and
  writes nothing to \<open>cout\<close>. When the column has one distinct value, it returns
  \<open>[0, -1, -1, -1, -1, -1, -1, -1, -1]\<close> and writes the warning; it does not stop.
\<close>

theorem categorical_and_degenerate_splits:
  assumes "sort_indexes feature_values sorted_indexes" and "NaN \<notin> set feature_values"
  shows "(2 \<le> card (set feature_values) \<and> card (set feature_values) \<le> 8 \<longrightarrow>
            compute_splits to_float sorted_indexes feature_values =
              Inr ([], Finite (of_nat (card (set feature_values) - 1)) #
                       sorted_list_of_set (set feature_values) @
                       replicate (8 - card (set feature_values)) (Finite (- 1)))) \<and>
         (card (set feature_values) = 1 \<longrightarrow>
            compute_splits to_float sorted_indexes feature_values =
              Inr ([''This feature has only one distinct value, please check it again''],
                   [Finite 0, Finite (- 1), Finite (- 1), Finite (- 1), Finite (- 1),
                    Finite (- 1), Finite (- 1), Finite (- 1), Finite (- 1)]))"
proof -
  let ?dv = "remdups_adj (sort feature_values)"
  note dv = compute_distinct_values_eq [OF assms]
  have len: "length ?dv = card (set feature_values)"
    by (rule distinct_values_count)
  have cat: "compute_splits to_float sorted_indexes feature_values =
              Inr ([], Finite (of_nat (card (set feature_values) - 1)) #
                       sorted_list_of_set (set feature_values) @
                       replicate (8 - card (set feature_values)) (Finite (- 1)))"
    if "2 \<le> card (set feature_values)" "card (set feature_values) \<le> 8"
  proof -
    have "map (\<lambda>i. if i \<le> length ?dv - 1 then ?dv ! i else Finite (- 1)) [0..<8] =
            ?dv @ replicate (8 - length ?dv) (Finite (- 1))"
      using that len by (intro categorical_slots) simp_all
    then have "compute_splits to_float sorted_indexes feature_values =
              Inr ([], Finite (of_nat (length ?dv - 1)) # ?dv @
                       replicate (8 - length ?dv) (Finite (- 1)))"
      using that dv len
      by (simp add: compute_splits_def MAX_SPLIT_NUM_def)
    then show ?thesis
      by (simp add: distinct_values_sorted_list)
  qed
  have deg: "compute_splits to_float sorted_indexes feature_values =
              Inr ([''This feature has only one distinct value, please check it again''],
                   [Finite 0, Finite (- 1), Finite (- 1), Finite (- 1), Finite (- 1),
                    Finite (- 1), Finite (- 1), Finite (- 1), Finite (- 1)])"
    if "card (set feature_values) = 1"
    using that dv len
    by (simp add: compute_splits_def MAX_SPLIT_NUM_def numeral_eq_Suc)
  show ?thesis
    using cat deg by blast
qed

theorem categorical_and_degenerate_splits_witness:
  "sort_indexes [Finite 1, Finite 1, Finite 2, Finite 2, Finite 3] [0, 1, 2, 3, 4] \<and>
   NaN \<notin> set [Finite 1, Finite 1, Finite 2, Finite 2, Finite 3] \<and>
   card (set [Finite 1, Finite 1, Finite 2, Finite 2, Finite 3]) = 3 \<and>
   compute_splits Finite [0, 1, 2, 3, 4] [Finite 1, Finite 1, Finite 2, Finite 2, Finite 3] =
     Inr ([], [Finite 2, Finite 1, Finite 2, Finite 3, Finite (- 1), Finite (- 1), Finite (- 1),
               Finite (- 1), Finite (- 1)]) \<and>
   sort_indexes [PInf, Finite 2, MInf, Finite 2] [2, 1, 3, 0] \<and>
   NaN \<notin> set [PInf, Finite 2, MInf, Finite 2] \<and>
   card (set [PInf, Finite 2, MInf, Finite 2]) = 3 \<and>
   compute_splits Finite [2, 1, 3, 0] [PInf, Finite 2, MInf, Finite 2] =
     Inr ([], [Finite 2, MInf, Finite 2, PInf, Finite (- 1), Finite (- 1), Finite (- 1),
               Finite (- 1), Finite (- 1)]) \<and>
   sort_indexes [Finite 4, Finite 4, Finite 4, Finite 4] [0, 1, 2, 3] \<and>
   NaN \<notin> set [Finite 4, Finite 4, Finite 4, Finite 4] \<and>
   card (set [Finite 4, Finite 4, Finite 4, Finite 4]) = 1 \<and>
   compute_splits Finite [0, 1, 2, 3] [Finite 4, Finite 4, Finite 4, Finite 4] =
     Inr ([''This feature has only one distinct value, please check it again''],
          [Finite 0, Finite (- 1), Finite (- 1), Finite (- 1), Finite (- 1),
           Finite (- 1), Finite (- 1), Finite (- 1), Finite (- 1)])"
proof -
  let ?a = "[Finite 1, Finite 1, Finite 2, Finite 2, Finite 3]"
  let ?b = "[PInf, Finite 2, MInf, Finite 2]"
  let ?c = "[Finite 4, Finite 4, Finite 4, Finite 4]"
  have s1: "sort_indexes ?a [0, 1, 2, 3, 4]"
    and s2: "sort_indexes ?b [2, 1, 3, 0]"
    and s3: "sort_indexes ?c [0, 1, 2, 3]"
    by code_simp+
  have n1: "NaN \<notin> set ?a" and n2: "NaN \<notin> set ?b" and n3: "NaN \<notin> set ?c"
    by simp_all
  have c1: "card (set ?a) = 3" and c2: "card (set ?b) = 3" and c3: "card (set ?c) = 1"
    by code_simp+
  have r1: "2 \<le> card (set ?a) \<and> card (set ?a) \<le> 8"
    and r2: "2 \<le> card (set ?b) \<and> card (set ?b) \<le> 8"
    by (simp_all only: c1 c2) simp_all
  have l1: "Finite (of_nat (card (set ?a) - 1)) # sorted_list_of_set (set ?a) @
              replicate (8 - card (set ?a)) (Finite (- 1)) =
            [Finite 2, Finite 1, Finite 2, Finite 3, Finite (- 1), Finite (- 1), Finite (- 1),
             Finite (- 1), Finite (- 1)]"
    by code_simp
  have l2: "Finite (of_nat (card (set ?b) - 1)) # sorted_list_of_set (set ?b) @
              replicate (8 - card (set ?b)) (Finite (- 1)) =
            [Finite 2, MInf, Finite 2, PInf, Finite (- 1), Finite (- 1), Finite (- 1),
             Finite (- 1), Finite (- 1)]"
    by code_simp
  have e1: "compute_splits Finite [0, 1, 2, 3, 4] ?a =
     Inr ([], [Finite 2, Finite 1, Finite 2, Finite 3, Finite (- 1), Finite (- 1), Finite (- 1),
               Finite (- 1), Finite (- 1)])"
    using categorical_and_degenerate_splits [OF s1 n1, of Finite, THEN conjunct1, THEN mp, OF r1]
    by (simp only: l1)
  have e2: "compute_splits Finite [2, 1, 3, 0] ?b =
     Inr ([], [Finite 2, MInf, Finite 2, PInf, Finite (- 1), Finite (- 1), Finite (- 1),
               Finite (- 1), Finite (- 1)])"
    using categorical_and_degenerate_splits [OF s2 n2, of Finite, THEN conjunct1, THEN mp, OF r2]
    by (simp only: l2)
  have e3: "compute_splits Finite [0, 1, 2, 3] ?c =
     Inr ([''This feature has only one distinct value, please check it again''],
          [Finite 0, Finite (- 1), Finite (- 1), Finite (- 1), Finite (- 1),
           Finite (- 1), Finite (- 1), Finite (- 1), Finite (- 1)])"
    by (rule categorical_and_degenerate_splits [OF s3 n3, of Finite, THEN conjunct2, THEN mp,
          OF c3])
  show ?thesis
    by (intro conjI s1 n1 c1 e1 s2 n2 c2 e2 s3 n3 c3 e3)
qed

text \<open>
  A column that holds NaN is not covered. NaN equals no value, itself included, so the
  loop of \<open>compute_distinct_values\<close> never finds it equal to the last distinct value. In
  the column \<open>[1, NaN, 1]\<close> no index compares less than another and the sort leaves the
  indices in the order \<open>[0, 1, 2]\<close>. The column has the two distinct values 1 and NaN;
  \<open>compute_splits\<close> counts three and returns \<open>[2, 1, NaN, 1, -1, -1, -1, -1, -1]\<close>,
  which lists the value 1 twice and is not in ascending order.
\<close>

theorem categorical_nan_counterexample:
  "sort_indexes [Finite 1, NaN, Finite 1] [0, 1, 2] \<and>
   card (set [Finite 1, NaN, Finite 1]) = 2 \<and>
   compute_distinct_values [Finite 1, NaN, Finite 1] [0, 1, 2] =
     Inr [Finite 1, NaN, Finite 1] \<and>
   compute_splits Finite [0, 1, 2] [Finite 1, NaN, Finite 1] =
     Inr ([], [Finite 2, Finite 1, NaN, Finite 1, Finite (- 1), Finite (- 1), Finite (- 1),
               Finite (- 1), Finite (- 1)]) \<and>
   \<not> distinct [Finite 1, NaN, Finite 1] \<and>
   \<not> sorted_wrt fle [Finite 1, NaN, Finite 1]"
proof -
  have s: "sort_indexes [Finite 1, NaN, Finite 1] [0, 1, 2]"
    by code_simp
  have c: "card (set [Finite 1, NaN, Finite 1]) = 2"
    by code_simp
  have d: "compute_distinct_values [Finite 1, NaN, Finite 1] [0, 1, 2] =
     Inr [Finite 1, NaN, Finite 1]"
    by code_simp
  have e: "compute_splits Finite [0, 1, 2] [Finite 1, NaN, Finite 1] =
     Inr ([], [Finite 2, Finite 1, NaN, Finite 1, Finite (- 1), Finite (- 1), Finite (- 1),
               Finite (- 1), Finite (- 1)])"
    by code_simp
  have n: "\<not> distinct [Finite 1, NaN, Finite 1]"
    by simp
  have o: "\<not> sorted_wrt fle [Finite 1, NaN, Finite 1]"
    by (simp add: fle_def)
  show ?thesis
    by (intro conjI s c d e n o)
qed

lemma continuous_branch:
  assumes "sort_indexes feature_values sorted_indexes" and "9 \<le> card (set feature_values)"
  shows "compute_splits to_float sorted_indexes feature_values =
           (case split_values_loop to_float feature_values sorted_indexes
                   (length feature_values div 9) [0..<8] of
              Inl e \<Rightarrow> Inl e
            | Inr split_values \<Rightarrow> Inr ([], Finite 8 # split_values))"
proof -
  from distinct_count_ge [OF assms(1)] obtain dv
    where "compute_distinct_values feature_values sorted_indexes = Inr dv"
      and "card (set feature_values) \<le> length dv"
    by blast
  with assms(2) show ?thesis
    by (simp add: compute_splits_def MAX_SPLIT_NUM_def split: sum.splits)
qed

lemma continuous_splits:
  assumes "sort_indexes feature_values sorted_indexes"
    and "9 \<le> card (set feature_values)" and "10 \<le> length feature_values"
  shows "compute_splits to_float sorted_indexes feature_values =
           Inr ([], Finite 8 # map (\<lambda>i. float_average to_float
               (feature_values ! (sorted_indexes ! ((i + 1) * (length feature_values div 9))))
               (feature_values ! (sorted_indexes ! ((i + 1) * (length feature_values div 9) + 1))))
             [0..<8])"
proof -
  have "\<forall>i \<in> set [0..<8]. (i + 1) * (length feature_values div 9) + 1 < length feature_values"
    using bin_positions_in_range [OF assms(3)] by simp
  from split_values_loop_ok [OF assms(1) this, of to_float] continuous_branch [OF assms(1,2)]
  show ?thesis by simp
qed

lemma sorted_positions:
  assumes "sort_indexes feature_values sorted_indexes" and "NaN \<notin> set feature_values"
    and "10 \<le> length feature_values"
  shows "map (\<lambda>i. float_average to_float
               (feature_values ! (sorted_indexes ! ((i + 1) * (length feature_values div 9))))
               (feature_values ! (sorted_indexes ! ((i + 1) * (length feature_values div 9) + 1))))
             [0..<8] =
         map (\<lambda>i. float_average to_float
               (sort feature_values ! ((i + 1) * (length feature_values div 9)))
               (sort feature_values ! ((i + 1) * (length feature_values div 9) + 1)))
             [0..<8]"
proof (rule map_cong [OF refl])
  fix i
  assume "i \<in> set [0..<8]"
  then have "i < 8" by simp
  from bin_positions_in_range [OF assms(3) this]
  have b: "(i + 1) * (length feature_values div 9) + 1 < length feature_values" .
  then have a: "(i + 1) * (length feature_values div 9) < length feature_values" by simp
  from sorted_value_sort [OF assms(1,2) a] sorted_value_sort [OF assms(1,2) b]
  show "float_average to_float
          (feature_values ! (sorted_indexes ! ((i + 1) * (length feature_values div 9))))
          (feature_values ! (sorted_indexes ! ((i + 1) * (length feature_values div 9) + 1))) =
        float_average to_float
          (sort feature_values ! ((i + 1) * (length feature_values div 9)))
          (sort feature_values ! ((i + 1) * (length feature_values div 9) + 1))"
    by simp
qed

lemma thresholds_sorted:
  assumes "NaN \<notin> set feature_values" and "10 \<le> length feature_values"
    and "mono to_float" and "\<And>x. to_float x \<noteq> NaN"
    and "MInf \<notin> set feature_values \<or> PInf \<notin> set feature_values"
  shows "sorted_wrt fle (map (\<lambda>i. float_average to_float
               (sort feature_values ! ((i + 1) * (length feature_values div 9)))
               (sort feature_values ! ((i + 1) * (length feature_values div 9) + 1)))
             [0..<8])"
proof -
  let ?n = "length feature_values"
  let ?s = "sort feature_values"
  let ?t = "\<lambda>i. float_average to_float (?s ! ((i + 1) * (?n div 9)))
                                         (?s ! ((i + 1) * (?n div 9) + 1))"
  have mem: "?s ! k \<in> set feature_values" if "k < ?n" for k
  proof -
    from that have "?s ! k \<in> set ?s" by (intro nth_mem) simp
    then show ?thesis by simp
  qed
  have "fle (?t i) (?t j)" if "i < j" "j < 8" for i j
  proof -
    from that have i: "i < 8" by simp
    have bj: "(j + 1) * (?n div 9) + 1 < ?n"
      using bin_positions_in_range [OF assms(2) that(2)] .
    have bi: "(i + 1) * (?n div 9) + 1 < ?n"
      using bin_positions_in_range [OF assms(2) i] .
    have le: "(i + 1) * (?n div 9) \<le> (j + 1) * (?n div 9)"
      using that(1) by (intro mult_right_mono) simp_all
    have s: "sorted ?s" by simp
    have m: "?s ! ((i + 1) * (?n div 9)) \<in> set feature_values"
      "?s ! ((i + 1) * (?n div 9) + 1) \<in> set feature_values"
      "?s ! ((j + 1) * (?n div 9)) \<in> set feature_values"
      "?s ! ((j + 1) * (?n div 9) + 1) \<in> set feature_values"
      using bi bj by (simp_all add: mem)
    have 1: "?s ! ((i + 1) * (?n div 9)) \<le> ?s ! ((j + 1) * (?n div 9))"
      using le bj by (intro sorted_nth_mono [OF s]) simp_all
    have 2: "?s ! ((i + 1) * (?n div 9) + 1) \<le> ?s ! ((j + 1) * (?n div 9) + 1)"
      using le bj by (intro sorted_nth_mono [OF s]) simp_all
    have 3: "?s ! ((j + 1) * (?n div 9)) \<noteq> NaN" "?s ! ((j + 1) * (?n div 9) + 1) \<noteq> NaN"
      using m(3,4) assms(1) by metis+
    have 4: "MInf \<notin> {?s ! ((i + 1) * (?n div 9)), ?s ! ((i + 1) * (?n div 9) + 1),
                       ?s ! ((j + 1) * (?n div 9)), ?s ! ((j + 1) * (?n div 9) + 1)} \<or>
             PInf \<notin> {?s ! ((i + 1) * (?n div 9)), ?s ! ((i + 1) * (?n div 9) + 1),
                       ?s ! ((j + 1) * (?n div 9)), ?s ! ((j + 1) * (?n div 9) + 1)}"
      using m assms(5) by auto
    show ?thesis
      by (rule float_average_mono [OF assms(3,4) 1 2 3 4])
  qed
  then show ?thesis
    by (simp add: sorted_wrt_iff_nth_less del: upt_Suc)
qed

lemma nine_samples_fault:
  assumes "sort_indexes feature_values sorted_indexes"
    and "9 \<le> card (set feature_values)" and "length feature_values = 9"
  shows "compute_splits to_float sorted_indexes feature_values = Inl Index_Out_Of_Range"
proof -
  have "\<exists>i \<in> set [0..<8]. length feature_values \<le> (i + 1) * (length feature_values div 9) + 1"
    using assms(3) by (intro bexI [of _ 7]) simp_all
  from split_values_loop_fault [OF assms(1) this, of to_float] continuous_branch [OF assms(1,2)]
  show ?thesis by simp
qed

text \<open>
  C3. The upper position is not clamped. For a column of 9 samples with 9 distinct
  values the bin size is 1, the upper position of the last boundary is
  \<open>(7 + 1) * 1 + 1 = 9\<close>, the number of samples, and the read
  \<open>sorted_indexes[9]\<close> is past the end of the vector: \<open>compute_splits\<close> leaves
  defined behaviour there.
\<close>

theorem upper_position_not_clamped:
  assumes "sort_indexes feature_values sorted_indexes"
    and "9 \<le> card (set feature_values)" and "length feature_values = 9"
  shows "(7 + 1) * (length feature_values div (MAX_SPLIT_NUM + 1)) + 1 = length feature_values \<and>
         sorted_value feature_values sorted_indexes
           ((7 + 1) * (length feature_values div (MAX_SPLIT_NUM + 1)) + 1) =
           Inl Index_Out_Of_Range \<and>
         compute_splits to_float sorted_indexes feature_values = Inl Index_Out_Of_Range"
proof -
  have p: "(7 + 1) * (length feature_values div (MAX_SPLIT_NUM + 1)) + 1 = length feature_values"
    using assms(3) by (simp add: MAX_SPLIT_NUM_def)
  have "sorted_value feature_values sorted_indexes (length feature_values) =
          Inl Index_Out_Of_Range"
    using assms(1) by (intro sorted_value_out) simp_all
  with p nine_samples_fault [OF assms, of to_float] show ?thesis
    by simp
qed

theorem upper_position_not_clamped_witness:
  "sort_indexes [Finite 1, Finite 2, Finite 3, Finite 4, Finite 5, Finite 6, Finite 7, Finite 8,
                 Finite 9] [0, 1, 2, 3, 4, 5, 6, 7, 8] \<and>
   9 \<le> card (set [Finite 1, Finite 2, Finite 3, Finite 4, Finite 5, Finite 6, Finite 7,
                    Finite 8, Finite 9]) \<and>
   length [Finite 1, Finite 2, Finite 3, Finite 4, Finite 5, Finite 6, Finite 7, Finite 8,
           Finite 9] = 9 \<and>
   sorted_value [Finite 1, Finite 2, Finite 3, Finite 4, Finite 5, Finite 6, Finite 7, Finite 8,
                 Finite 9] [0, 1, 2, 3, 4, 5, 6, 7, 8] 9 =
     Inl Index_Out_Of_Range \<and>
   compute_splits Finite [0, 1, 2, 3, 4, 5, 6, 7, 8]
       [Finite 1, Finite 2, Finite 3, Finite 4, Finite 5, Finite 6, Finite 7, Finite 8,
        Finite 9] =
     Inl Index_Out_Of_Range"
proof -
  let ?fv = "[Finite 1, Finite 2, Finite 3, Finite 4, Finite 5, Finite 6, Finite 7, Finite 8,
              Finite 9]"
  have s: "sort_indexes ?fv [0, 1, 2, 3, 4, 5, 6, 7, 8]"
    by code_simp
  have c: "9 \<le> card (set ?fv)"
    by code_simp
  have l: "length ?fv = 9"
    by simp
  have v: "sorted_value ?fv [0, 1, 2, 3, 4, 5, 6, 7, 8] 9 = Inl Index_Out_Of_Range"
    by code_simp
  have f: "compute_splits Finite [0, 1, 2, 3, 4, 5, 6, 7, 8] ?fv = Inl Index_Out_Of_Range"
    by (rule upper_position_not_clamped [OF s c l, of Finite, THEN conjunct2, THEN conjunct2])
  show ?thesis
    by (intro conjI s c l v f)
qed

text \<open>
  C5. Let \<open>sorted_indexes\<close> be a vector that \<open>sort_indexes\<close> may return for a column
  with at least 9 distinct values; the column has at least 9 samples. With 10 samples or
  more, \<open>compute_splits\<close> returns \<open>[8, t_0, ..., t_7]\<close>, where \<open>t_i\<close> is the float
  average of the values at the places \<open>(i+1) * bin_size\<close> and \<open>(i+1) * bin_size + 1\<close> of
  the returned order, \<open>bin_size = n / 9\<close>. When no value is NaN, the returned order lists
  the sorted values, and the thresholds are non-decreasing when the rounding to
  \<open>float\<close> is monotone and the column does not hold both infinities. With exactly 9
  samples \<open>compute_splits\<close> reads past the end of \<open>sorted_indexes\<close> and returns
  nothing defined.
\<close>

theorem continuous_splits_except_nine:
  assumes "sort_indexes feature_values sorted_indexes"
    and "9 \<le> card (set feature_values)"
  shows "(10 \<le> length feature_values \<longrightarrow>
            compute_splits to_float sorted_indexes feature_values =
              Inr ([], Finite 8 # map (\<lambda>i. float_average to_float
                (feature_values ! (sorted_indexes ! ((i + 1) * (length feature_values div 9))))
                (feature_values ! (sorted_indexes ! ((i + 1) * (length feature_values div 9) + 1))))
              [0..<8]) \<and>
            (NaN \<notin> set feature_values \<longrightarrow>
               map ((!) feature_values) sorted_indexes = sort feature_values \<and>
               compute_splits to_float sorted_indexes feature_values =
                 Inr ([], Finite 8 # map (\<lambda>i. float_average to_float
                      (sort feature_values ! ((i + 1) * (length feature_values div 9)))
                      (sort feature_values ! ((i + 1) * (length feature_values div 9) + 1)))
                    [0..<8]) \<and>
               (mono to_float \<and> (\<forall>x. to_float x \<noteq> NaN) \<and>
                (MInf \<notin> set feature_values \<or> PInf \<notin> set feature_values) \<longrightarrow>
                  sorted_wrt fle (map (\<lambda>i. float_average to_float
                      (sort feature_values ! ((i + 1) * (length feature_values div 9)))
                      (sort feature_values ! ((i + 1) * (length feature_values div 9) + 1)))
                    [0..<8])))) \<and>
         (length feature_values = 9 \<longrightarrow>
            compute_splits to_float sorted_indexes feature_values = Inl Index_Out_Of_Range) \<and>
         9 \<le> length feature_values"
proof -
  have "card (set feature_values) \<le> length feature_values"
    by (rule card_length)
  with assms(2) have n: "9 \<le> length feature_values" by simp
  note c = continuous_splits [OF assms, of to_float]
  have s: "compute_splits to_float sorted_indexes feature_values =
                 Inr ([], Finite 8 # map (\<lambda>i. float_average to_float
                      (sort feature_values ! ((i + 1) * (length feature_values div 9)))
                      (sort feature_values ! ((i + 1) * (length feature_values div 9) + 1)))
                    [0..<8])"
    if "10 \<le> length feature_values" "NaN \<notin> set feature_values"
    using c [OF that(1)] sorted_positions [OF assms(1) that(2,1), of to_float]
    by (simp only:)
  have o: "sorted_wrt fle (map (\<lambda>i. float_average to_float
                      (sort feature_values ! ((i + 1) * (length feature_values div 9)))
                      (sort feature_values ! ((i + 1) * (length feature_values div 9) + 1)))
                    [0..<8])"
    if "10 \<le> length feature_values" "NaN \<notin> set feature_values"
      "mono to_float" "\<forall>x. to_float x \<noteq> NaN"
      "MInf \<notin> set feature_values \<or> PInf \<notin> set feature_values"
    using that by (intro thresholds_sorted) simp_all
  from n c s o sort_indexes_values [OF assms(1)] nine_samples_fault [OF assms, of to_float]
  show ?thesis by blast
qed

theorem continuous_splits_except_nine_witness:
  "sort_indexes [Finite 5, Finite 1, Finite 3, Finite 3, Finite 9, Finite 2, Finite 7, Finite 8,
                 Finite 4, Finite 6] [1, 5, 2, 3, 8, 0, 9, 6, 7, 4] \<and>
   9 \<le> card (set [Finite 5, Finite 1, Finite 3, Finite 3, Finite 9, Finite 2, Finite 7,
                    Finite 8, Finite 4, Finite 6]) \<and>
   10 \<le> length [Finite 5, Finite 1, Finite 3, Finite 3, Finite 9, Finite 2, Finite 7, Finite 8,
                 Finite 4, Finite 6] \<and>
   NaN \<notin> set [Finite 5, Finite 1, Finite 3, Finite 3, Finite 9, Finite 2, Finite 7, Finite 8,
               Finite 4, Finite 6] \<and>
   mono Finite \<and>
   compute_splits Finite [1, 5, 2, 3, 8, 0, 9, 6, 7, 4]
       [Finite 5, Finite 1, Finite 3, Finite 3, Finite 9, Finite 2, Finite 7, Finite 8,
        Finite 4, Finite 6] =
     Inr ([], [Finite 8, Finite (5 / 2), Finite 3, Finite (7 / 2), Finite (9 / 2),
               Finite (11 / 2), Finite (13 / 2), Finite (15 / 2), Finite (17 / 2)]) \<and>
   sorted_wrt fle [Finite (5 / 2), Finite 3, Finite (7 / 2), Finite (9 / 2), Finite (11 / 2),
                   Finite (13 / 2), Finite (15 / 2), Finite (17 / 2)] \<and>
   sort_indexes [Finite 9, Finite 8, Finite 7, Finite 6, Finite 5, Finite 4, Finite 3, Finite 2,
                 Finite 1] [8, 7, 6, 5, 4, 3, 2, 1, 0] \<and>
   9 \<le> card (set [Finite 9, Finite 8, Finite 7, Finite 6, Finite 5, Finite 4, Finite 3,
                    Finite 2, Finite 1]) \<and>
   length [Finite 9, Finite 8, Finite 7, Finite 6, Finite 5, Finite 4, Finite 3, Finite 2,
           Finite 1] = 9 \<and>
   compute_splits Finite [8, 7, 6, 5, 4, 3, 2, 1, 0]
       [Finite 9, Finite 8, Finite 7, Finite 6, Finite 5, Finite 4, Finite 3, Finite 2,
        Finite 1] =
     Inl Index_Out_Of_Range"
proof -
  let ?fv = "[Finite 5, Finite 1, Finite 3, Finite 3, Finite 9, Finite 2, Finite 7, Finite 8,
              Finite 4, Finite 6]"
  let ?gv = "[Finite 9, Finite 8, Finite 7, Finite 6, Finite 5, Finite 4, Finite 3, Finite 2,
              Finite 1]"
  have s1: "sort_indexes ?fv [1, 5, 2, 3, 8, 0, 9, 6, 7, 4]"
    and s2: "sort_indexes ?gv [8, 7, 6, 5, 4, 3, 2, 1, 0]"
    by code_simp+
  have c1: "9 \<le> card (set ?fv)" and c2: "9 \<le> card (set ?gv)"
    by code_simp+
  have l1: "10 \<le> length ?fv" and l2: "length ?gv = 9"
    by simp_all
  have n1: "NaN \<notin> set ?fv"
    by simp
  have m: "mono Finite"
    by (simp add: mono_def)
  have h: "mono Finite \<and> (\<forall>x. Finite x \<noteq> NaN) \<and> (MInf \<notin> set ?fv \<or> PInf \<notin> set ?fv)"
    using m by simp
  have t: "map (\<lambda>i. float_average Finite (sort ?fv ! ((i + 1) * (length ?fv div 9)))
                                          (sort ?fv ! ((i + 1) * (length ?fv div 9) + 1))) [0..<8] =
           [Finite (5 / 2), Finite 3, Finite (7 / 2), Finite (9 / 2), Finite (11 / 2),
            Finite (13 / 2), Finite (15 / 2), Finite (17 / 2)]"
    by code_simp
  note good = continuous_splits_except_nine [OF s1 c1, of Finite, THEN conjunct1, THEN mp, OF l1,
      THEN conjunct2, THEN mp, OF n1, THEN conjunct2]
  have e: "compute_splits Finite [1, 5, 2, 3, 8, 0, 9, 6, 7, 4] ?fv =
             Inr ([], [Finite 8, Finite (5 / 2), Finite 3, Finite (7 / 2), Finite (9 / 2),
               Finite (11 / 2), Finite (13 / 2), Finite (15 / 2), Finite (17 / 2)])"
    using good [THEN conjunct1] by (simp only: t)
  have o: "sorted_wrt fle [Finite (5 / 2), Finite 3, Finite (7 / 2), Finite (9 / 2),
             Finite (11 / 2), Finite (13 / 2), Finite (15 / 2), Finite (17 / 2)]"
    using good [THEN conjunct2, THEN mp, OF h] by (simp only: t)
  have f: "compute_splits Finite [8, 7, 6, 5, 4, 3, 2, 1, 0] ?gv = Inl Index_Out_Of_Range"
    by (rule continuous_splits_except_nine [OF s2 c2, of Finite, THEN conjunct2, THEN conjunct1,
          THEN mp, OF l2])
  show ?thesis
    by (intro conjI s1 c1 l1 n1 m e o s2 c2 l2 f)
qed













end
